theory Spec2Isabelle
  imports Main "HOL-Library.Multiset"
begin

section \<open>The query compiler of \<^verbatim>\<open>packages/gatsby/src/query/query-compiler.js\<close>\<close>

text \<open>
  The development embeds \<^verbatim>\<open>Runner.write\<close>, the compilation pipeline of the file: the
  per-file structural validation and fragment de-duplication (lines 178-230), the
  global validation (232-256) and the per-operation fragment resolution and query
  construction (258-361).

  What the file imports from other packages is a field of the record \<open>env\<close>:
  graphql's \<^verbatim>\<open>print\<close> and \<^verbatim>\<open>validate\<close> (one field for each of the two rule lists the
  file passes), \<^verbatim>\<open>graphqlError\<close> of \<^verbatim>\<open>./graphql-errors\<close>, the engine's
  \<^verbatim>\<open>Array.prototype.sort\<close>, lodash's \<^verbatim>\<open>kebabCase\<close>, node's \<^verbatim>\<open>path.relative\<close>,
  the program directory of the redux store, and the test of lines 350-352.
  The redux dispatches (\<^verbatim>\<open>actions.queryExtractionGraphQLError\<close>) and the map
  \<^verbatim>\<open>nameErrorMap\<close>, which is written and never read, do not reach the returned map
  or the reported errors and are left out.
\<close>

subsection \<open>Definitions, documents and diagnostics\<close>

datatype kind = OPERATION_DEFINITION | FRAGMENT_DEFINITION

text \<open>
  The part of a definition's syntax tree that the file looks at: \<^verbatim>\<open>visit\<close> is called
  with a callback for \<^verbatim>\<open>Kind.FRAGMENT_SPREAD\<close> only, so a selection is a field with
  its sub-selections, an inline fragment, or a spread of a named fragment.
\<close>

datatype selection =
    Field string "selection list"
  | InlineFragment "selection list"
  | FragmentSpread string

type_synonym loc = "nat \<times> nat"

text \<open>
  A definition node as the file parser hands it over: the graphql node (kind, name,
  selection set) with the fields the parser attaches (\<^verbatim>\<open>text\<close>, \<^verbatim>\<open>hash\<close>, \<^verbatim>\<open>isHook\<close>,
  \<^verbatim>\<open>isStaticQuery\<close>, \<^verbatim>\<open>templateLoc\<close>). Every definition has a name: line 223 reads
  \<^verbatim>\<open>def.name.value\<close> of each.
\<close>

record definition_node =
  def_kind :: kind
  def_name :: string
  def_selections :: "selection list"
  def_text :: string
  def_hash :: string
  def_isHook :: bool
  def_isStaticQuery :: bool
  def_templateLoc :: loc

record gerror =
  ge_message :: string
  ge_locations :: "loc list"

text \<open>
  What \<^verbatim>\<open>addError\<close> receives. The constructors keep the arguments of the calls:
  \<^verbatim>\<open>errorParser({ message, filePath, location })\<close> of line 190, whose location is
  computed from the template location of the document's first definition and the
  error's first location; \<^verbatim>\<open>errorParser({ message, filePath })\<close> of line 254;
  \<^verbatim>\<open>multipleRootQueriesError(filePath, def, otherDef)\<close> of line 268; and the object
  with id 85908 of line 311.
\<close>

datatype diagnostic =
    StructuralError string string loc "loc option"
  | GlobalError "string option" string
  | MultipleRootQueries string "definition_node option" "definition_node option"
  | UndefinedFragment string string "string option"

datatype failure = TypeError | ReactHooksPanic

record query =
  q_name :: string
  q_text :: string
  q_originalText :: string
  q_path :: string
  q_isHook :: bool
  q_isStaticQuery :: bool
  q_hash :: string
  q_id :: "string option"

record fragment_entry =
  frag_def :: definition_node
  frag_text :: string

record env =
  print :: "definition_node \<Rightarrow> string"
  validate_pre :: "definition_node list \<Rightarrow> gerror list"
  validate_main :: "definition_node list \<Rightarrow> gerror list"
  graphqlError :: "(string \<rightharpoonup> string) \<Rightarrow> (string \<rightharpoonup> definition_node) \<Rightarrow> gerror \<Rightarrow> string \<times> string"
  array_sort :: "(string \<times> nat \<Rightarrow> string \<times> nat \<Rightarrow> int) \<Rightarrow> (string \<times> nat) list \<Rightarrow> (string \<times> nat) list"
  kebabCase :: "string \<Rightarrow> string"
  path_relative :: "string \<Rightarrow> string \<Rightarrow> string"
  program_directory :: string
  hooks_unsupported :: bool

subsection \<open>Traversal and printing\<close>

fun spreads :: "selection \<Rightarrow> string list" where
  "spreads (Field f sels) = concat (map spreads sels)"
| "spreads (InlineFragment sels) = concat (map spreads sels)"
| "spreads (FragmentSpread n) = [n]"

text \<open>The spread names \<^verbatim>\<open>visit(def, ...)\<close> passes to the callback, in document order.\<close>

definition visit_spreads :: "definition_node \<Rightarrow> string list" where
  "visit_spreads d = concat (map spreads (def_selections d))"

fun join :: "string list \<Rightarrow> string \<Rightarrow> string" where
  "join [] sep = []"
| "join [x] sep = x"
| "join (x # y # ys) sep = x @ sep @ join (y # ys) sep"

text \<open>
  graphql prints a document node as its definitions, printed, joined by an empty line
  and closed by a newline.
\<close>

definition print_document :: "env \<Rightarrow> definition_node list \<Rightarrow> string" where
  "print_document env defs =
     join (map (print env) defs) [CHR 0x0A, CHR 0x0A] @ [CHR 0x0A]"

subsection \<open>Edit distance\<close>

text \<open>
  \<^verbatim>\<open>levenshtein.get\<close> of the package fast-levenshtein: the edit distance, computed row
  by row. \<open>lev_row a bs prev left\<close> is the rest of the row of character \<open>a\<close>, where
  \<open>prev\<close> is the previous row from the column before the current one and \<open>left\<close> the
  value just computed.
\<close>

fun lev_row :: "char \<Rightarrow> string \<Rightarrow> nat list \<Rightarrow> nat \<Rightarrow> nat list" where
  "lev_row a (b # bs) (diag # up # rest) left =
     (let v = min (min (up + 1) (left + 1)) (diag + (if a = b then 0 else 1))
      in v # lev_row a bs (up # rest) v)"
| "lev_row a bs prev left = []"

definition lev_step :: "string \<Rightarrow> nat list \<Rightarrow> char \<Rightarrow> nat list" where
  "lev_step b prev a =
     (case prev of [] \<Rightarrow> [] | p0 # ps \<Rightarrow> (p0 + 1) # lev_row a b prev (p0 + 1))"

definition levenshtein :: "string \<Rightarrow> string \<Rightarrow> nat" where
  "levenshtein a b = last (foldl (lev_step b) [0 ..< Suc (length b)] a)"

subsection \<open>The engine's sort\<close>

text \<open>
  \<^verbatim>\<open>Array.prototype.sort\<close> as V8 has implemented it since version 7.0 (node 11), for an
  array of fewer than 64 elements: the run the array starts with is counted, and
  reversed when it descends; every element after it is put into place by binary
  insertion. Each decision is the test whether the comparator's result is negative.
\<close>

function insertion_point ::
  "('a \<Rightarrow> 'a \<Rightarrow> int) \<Rightarrow> 'a \<Rightarrow> 'a list \<Rightarrow> nat \<Rightarrow> nat \<Rightarrow> nat" where
  "insertion_point cmp pivot arr left right =
     (if left < right then
        (let mid = left + (right - left) div 2 in
         if cmp pivot (arr ! mid) < 0 then insertion_point cmp pivot arr left mid
         else insertion_point cmp pivot arr (Suc mid) right)
      else left)"
  by pat_completeness auto
termination
  by (relation "measure (\<lambda>(cmp, pivot, arr, left, right). right - left)") auto

declare insertion_point.simps [simp del]

definition binary_insert :: "('a \<Rightarrow> 'a \<Rightarrow> int) \<Rightarrow> 'a list \<Rightarrow> 'a \<Rightarrow> 'a list" where
  "binary_insert cmp arr pivot =
     (let k = insertion_point cmp pivot arr 0 (length arr) in take k arr @ pivot # drop k arr)"

fun run_extend :: "('a \<Rightarrow> 'a \<Rightarrow> int) \<Rightarrow> bool \<Rightarrow> 'a \<Rightarrow> 'a list \<Rightarrow> nat" where
  "run_extend cmp descending previous [] = 0"
| "run_extend cmp descending previous (current # rest) =
     (let order = cmp current previous in
      if (if descending then order \<ge> 0 else order < 0) then 0
      else Suc (run_extend cmp descending current rest))"

definition v8_sort :: "('a \<Rightarrow> 'a \<Rightarrow> int) \<Rightarrow> 'a list \<Rightarrow> 'a list" where
  "v8_sort cmp xs =
     (case xs of
        x0 # x1 # rest \<Rightarrow>
          (let descending = (cmp x1 x0 < 0);
               runLength = Suc (Suc (run_extend cmp descending x1 rest));
               run = (if descending then rev (take runLength xs) else take runLength xs)
           in foldl (binary_insert cmp) run (drop runLength xs))
      | _ \<Rightarrow> xs)"

subsection \<open>The structural pass and the fragment registry (lines 178-230)\<close>

record mstate =
  fragmentMap :: "(string \<times> fragment_entry) list"
  namePathMap :: "string \<rightharpoonup> string"
  nameDefMap :: "string \<rightharpoonup> definition_node"
  operationDefinitions :: "definition_node list"

definition init_mstate :: mstate where
  "init_mstate = \<lparr> fragmentMap = [], namePathMap = Map.empty, nameDefMap = Map.empty,
     operationDefinitions = [] \<rparr>"

text \<open>
  The filter of lines 205-220, with the registry it updates. \<^verbatim>\<open>fragmentMap\<close> is a
  \<^verbatim>\<open>Map\<close>, whose keys and values are read in insertion order (lines 236 and 259):
  an association list that is only ever extended at its end, by a name it does not hold.
\<close>

fun filter_definitions ::
  "env \<Rightarrow> (string \<times> fragment_entry) list \<Rightarrow> definition_node list
    \<Rightarrow> definition_node list \<times> (string \<times> fragment_entry) list" where
  "filter_definitions env fm [] = ([], fm)"
| "filter_definitions env fm (d # ds) =
     (if def_kind d = FRAGMENT_DEFINITION then
        (case map_of fm (def_name d) of
           Some e \<Rightarrow>
             if print env d = frag_text e then filter_definitions env fm ds
             else (let (ds', fm') = filter_definitions env fm ds in (d # ds', fm'))
         | None \<Rightarrow>
             (let (ds', fm') =
                filter_definitions env
                  (fm @ [(def_name d, \<lparr> frag_def = d, frag_text = print env d \<rparr>)]) ds
              in (d # ds', fm')))
      else (let (ds', fm') = filter_definitions env fm ds in (d # ds', fm')))"

text \<open>The \<^verbatim>\<open>forEach\<close> of lines 222-229.\<close>

fun index_definitions :: "string \<Rightarrow> mstate \<Rightarrow> definition_node list \<Rightarrow> mstate" where
  "index_definitions filePath ms [] = ms"
| "index_definitions filePath ms (d # ds) =
     index_definitions filePath
       (ms \<lparr> namePathMap := (namePathMap ms)(def_name d \<mapsto> filePath),
             nameDefMap := (nameDefMap ms)(def_name d \<mapsto> d),
             operationDefinitions :=
               (if def_kind d = OPERATION_DEFINITION then operationDefinitions ms @ [d]
                else operationDefinitions ms) \<rparr>) ds"

datatype merge_outcome =
    Merged mstate
  | Aborted mstate "diagnostic list"
  | MergeThrown

text \<open>
  The loop of lines 178-230. A file with validation errors ends it: the errors are
  reported and \<^verbatim>\<open>compiledNodes\<close>, still empty, is returned (line 197). Line 186 reads
  \<^verbatim>\<open>doc.definitions[0].templateLoc\<close>, a TypeError when the document has no definition.
  \<open>Aborted\<close> keeps the state reached, to say what the loop had done by then.
\<close>

definition structural_errors :: "string \<Rightarrow> definition_node \<Rightarrow> gerror list \<Rightarrow> diagnostic list" where
  "structural_errors filePath d0 errors =
     map (\<lambda>error. StructuralError filePath (ge_message error) (def_templateLoc d0)
            (case ge_locations error of [] \<Rightarrow> None | l # _ \<Rightarrow> Some l)) errors"

fun merge_files :: "env \<Rightarrow> mstate \<Rightarrow> (string \<times> definition_node list) list \<Rightarrow> merge_outcome" where
  "merge_files env ms [] = Merged ms"
| "merge_files env ms ((filePath, doc) # rest) =
     (let errors = validate_pre env doc in
      if errors \<noteq> [] then
        (case doc of
           [] \<Rightarrow> MergeThrown
         | d0 # _ \<Rightarrow> Aborted ms (structural_errors filePath d0 errors))
      else
        (let (defs, fm) = filter_definitions env (fragmentMap ms) doc
         in merge_files env (index_definitions filePath (ms \<lparr> fragmentMap := fm \<rparr>) defs) rest))"

subsection \<open>The global validation (lines 232-256)\<close>

definition globalDoc :: "mstate \<Rightarrow> definition_node list" where
  "globalDoc ms = operationDefinitions ms @ map (\<lambda>(n, e). frag_def e) (fragmentMap ms)"

definition global_errors :: "env \<Rightarrow> mstate \<Rightarrow> diagnostic list" where
  "global_errors env ms =
     map (\<lambda>error.
            (let (docName, message) = graphqlError env (namePathMap ms) (nameDefMap ms) error
             in GlobalError (namePathMap ms docName) message))
       (validate_main env (globalDoc ms))"

text \<open>
  graphql's \<^verbatim>\<open>UniqueFragmentNamesRule\<close>, one of the rules of \<^verbatim>\<open>mainValidationRules\<close>:
  it walks the fragment definitions of the document and reports each one whose name
  it has seen before.
\<close>

fun unique_fragment_names :: "string list \<Rightarrow> definition_node list \<Rightarrow> gerror list" where
  "unique_fragment_names known [] = []"
| "unique_fragment_names known (d # ds) =
     (if def_kind d = FRAGMENT_DEFINITION then
        (if def_name d \<in> set known then
           \<lparr> ge_message = ''There can be only one fragment named '' @ def_name d,
             ge_locations = [] \<rparr> # unique_fragment_names known ds
         else unique_fragment_names (def_name d # known) ds)
      else unique_fragment_names known ds)"

definition UniqueFragmentNamesRule :: "definition_node list \<Rightarrow> gerror list" where
  "UniqueFragmentNamesRule doc = unique_fragment_names [] doc"

text \<open>
  graphql's \<^verbatim>\<open>UniqueOperationNamesRule\<close>, another rule of \<^verbatim>\<open>mainValidationRules\<close>, does
  the same for the operations.
\<close>

fun unique_operation_names :: "string list \<Rightarrow> definition_node list \<Rightarrow> gerror list" where
  "unique_operation_names known [] = []"
| "unique_operation_names known (d # ds) =
     (if def_kind d = OPERATION_DEFINITION then
        (if def_name d \<in> set known then
           \<lparr> ge_message = ''There can be only one operation named '' @ def_name d,
             ge_locations = [] \<rparr> # unique_operation_names known ds
         else unique_operation_names (def_name d # known) ds)
      else unique_operation_names known ds)"

definition UniqueOperationNamesRule :: "definition_node list \<Rightarrow> gerror list" where
  "UniqueOperationNamesRule doc = unique_operation_names [] doc"

subsection \<open>Fragment resolution and query construction (lines 258-361)\<close>

record ostate =
  compiledNodes :: "(string \<times> query) list"
  errors :: "diagnostic list"
  usedFragmentsForFragment :: "string \<rightharpoonup> string list"

text \<open>\<^verbatim>\<open>Set.prototype.add\<close>: a set keeps its values in insertion order.\<close>

definition set_add :: "string list \<Rightarrow> string \<Rightarrow> string list" where
  "set_add s x = (if x \<in> set s then s else s @ [x])"

text \<open>
  Lines 301-306: the registered names with their distances to the missing name, those
  below 10, sorted by the engine with the comparator \<^verbatim>\<open>(a, b) => a.score > b.score\<close>,
  the first one's name. The comparator returns a boolean, which the engine reads as the
  number 1 or 0.
\<close>

definition score_comparator :: "string \<times> nat \<Rightarrow> string \<times> nat \<Rightarrow> int" where
  "score_comparator a b = (if snd a > snd b then 1 else 0)"

definition closestFragment :: "env \<Rightarrow> string list \<Rightarrow> string \<Rightarrow> string option" where
  "closestFragment env fragmentNames name =
     (case array_sort env score_comparator
             (filter (\<lambda>f. snd f < 10) (map (\<lambda>f. (f, levenshtein name f)) fragmentNames)) of
        [] \<Rightarrow> None
      | f # _ \<Rightarrow> Some (fst f))"

text \<open>
  The callback of lines 288-317 on one spread, as a function of the stack, the set of
  used fragments and the errors reported.
\<close>

definition visit_spread ::
  "env \<Rightarrow> (string \<times> fragment_entry) list \<Rightarrow> (string \<rightharpoonup> string list) \<Rightarrow> string
    \<Rightarrow> definition_node list \<times> string list \<times> diagnostic list \<Rightarrow> string
    \<Rightarrow> definition_node list \<times> string list \<times> diagnostic list" where
  "visit_spread env fm cache filePath s name =
     (case s of (stack, used, errs) \<Rightarrow>
        (case cache name of
           Some derived \<Rightarrow> (stack, set_add (foldl set_add used derived) name, errs)
         | None \<Rightarrow>
             (case map_of fm name of
                Some e \<Rightarrow> (stack @ [frag_def e], set_add used name, errs)
              | None \<Rightarrow>
                  (stack, used,
                   errs @ [UndefinedFragment filePath name
                             (closestFragment env (map fst fm) name)]))))"

text \<open>
  The loop of lines 285-319. Nothing bounds it: a fragment that is reached again is
  pushed again. The first argument is the number of iterations allowed; \<open>None\<close> says
  they did not suffice.
\<close>

fun resolve ::
  "nat \<Rightarrow> env \<Rightarrow> (string \<times> fragment_entry) list \<Rightarrow> (string \<rightharpoonup> string list) \<Rightarrow> string
    \<Rightarrow> definition_node list \<times> string list \<times> diagnostic list
    \<Rightarrow> (string list \<times> diagnostic list) option" where
  "resolve n env fm cache filePath ([], used, errs) = Some (used, errs)"
| "resolve 0 env fm cache filePath (d # stack, used, errs) = None"
| "resolve (Suc n) env fm cache filePath (d # stack, used, errs) =
     resolve n env fm cache filePath
       (foldl (visit_spread env fm cache filePath) (butlast (d # stack), used, errs)
          (visit_spreads (last (d # stack))))"

fun lookup_all :: "(string \<times> fragment_entry) list \<Rightarrow> string list \<Rightarrow> definition_node list option" where
  "lookup_all fm [] = Some []"
| "lookup_all fm (n # ns) =
     (case map_of fm n of
        None \<Rightarrow> None
      | Some e \<Rightarrow> (case lookup_all fm ns of None \<Rightarrow> None | Some ds \<Rightarrow> Some (frag_def e # ds)))"

definition file_of :: "mstate \<Rightarrow> string \<Rightarrow> string" where
  "file_of ms name = (case namePathMap ms name of None \<Rightarrow> [] | Some p \<Rightarrow> p)"

definition make_query :: "env \<Rightarrow> string \<Rightarrow> string \<Rightarrow> definition_node \<Rightarrow> definition_node list \<Rightarrow> definition_node \<Rightarrow> query" where
  "make_query env name filePath nd fragments operation =
     \<lparr> q_name = name,
       q_text = print_document env (fragments @ [operation]),
       q_originalText = def_text nd,
       q_path = filePath,
       q_isHook = def_isHook nd,
       q_isStaticQuery = def_isStaticQuery nd,
       q_hash = def_hash nd,
       q_id = (if def_isStaticQuery nd
               then Some (''sq--'' @ kebabCase env (path_relative env (program_directory env) filePath))
               else None) \<rparr>"

text \<open>
  Modelled from the spec: \<^verbatim>\<open>report.panicOnBuild\<close> of gatsby-cli, which line 354 calls
  and which is not among the sources. The specification has a hook query on a runtime
  without hook support as a fatal error of the whole build: a terminal failure, apart
  from the diagnostics, that ends the run at once.
\<close>

definition panicOnBuild :: "(failure + ostate) option" where
  "panicOnBuild = Some (Inl ReactHooksPanic)"

declare panicOnBuild_def [simp]

text \<open>
  The body of the loop of lines 261-361 for one operation. \<^verbatim>\<open>fragmentMap.get(name).def\<close>
  (line 327) and \<^verbatim>\<open>nameDefMap.get(name).text\<close> (line 334) are TypeErrors on a name the
  map does not hold. \<^verbatim>\<open>missingFragment\<close> is the constant \<^verbatim>\<open>false\<close>, so the test of
  line 320 never holds.
\<close>

definition process_operation ::
  "nat \<Rightarrow> env \<Rightarrow> mstate \<Rightarrow> ostate \<Rightarrow> definition_node \<Rightarrow> (failure + ostate) option" where
  "process_operation fuel env ms st operation =
     (let name = def_name operation; filePath = file_of ms name in
      case map_of (compiledNodes st) filePath of
        Some otherNode \<Rightarrow>
          Some (Inr (st \<lparr> errors := errors st @
            [MultipleRootQueries filePath (nameDefMap ms name)
               (nameDefMap ms (q_name otherNode))] \<rparr>))
      | None \<Rightarrow>
          (case resolve fuel env (fragmentMap ms) (usedFragmentsForFragment st) filePath
                  ([operation], [], []) of
             None \<Rightarrow> None
           | Some (usedFragments, errs) \<Rightarrow>
               (case lookup_all (fragmentMap ms) usedFragments of
                  None \<Rightarrow> Some (Inl TypeError)
                | Some fragments \<Rightarrow>
                    (case nameDefMap ms name of
                       None \<Rightarrow> Some (Inl TypeError)
                     | Some nd \<Rightarrow>
                         (if def_isHook nd \<and> hooks_unsupported env
                          then panicOnBuild
                          else Some (Inr (st \<lparr>
                            compiledNodes := compiledNodes st @
                              [(filePath, make_query env name filePath nd fragments operation)],
                            errors := errors st @ errs \<rparr>)))))))"

fun run_operations ::
  "nat \<Rightarrow> env \<Rightarrow> mstate \<Rightarrow> ostate \<Rightarrow> definition_node list \<Rightarrow> (failure + ostate) option" where
  "run_operations fuel env ms st [] = Some (Inr st)"
| "run_operations fuel env ms st (operation # ops) =
     (case process_operation fuel env ms st operation of
        None \<Rightarrow> None
      | Some (Inl f) \<Rightarrow> Some (Inl f)
      | Some (Inr st') \<Rightarrow> run_operations fuel env ms st' ops)"

text \<open>
  \<^verbatim>\<open>Runner.write\<close>. The argument \<open>nodes\<close> is the \<^verbatim>\<open>Map\<close> from file paths to documents,
  as the list of its entries in insertion order.
\<close>

definition Runner_write ::
  "nat \<Rightarrow> env \<Rightarrow> (string \<times> definition_node list) list \<Rightarrow> (failure + ostate) option" where
  "Runner_write fuel env nodes =
     (case merge_files env init_mstate nodes of
        MergeThrown \<Rightarrow> Some (Inl TypeError)
      | Aborted ms errs \<Rightarrow>
          Some (Inr \<lparr> compiledNodes = [], errors = errs, usedFragmentsForFragment = Map.empty \<rparr>)
      | Merged ms \<Rightarrow>
          run_operations fuel env ms
            \<lparr> compiledNodes = [], errors = global_errors env ms,
              usedFragmentsForFragment = Map.empty \<rparr>
            (operationDefinitions ms))"

subsection \<open>What a run returns and reports\<close>

definition diagnostics_of :: "(failure + ostate) option \<Rightarrow> diagnostic list option" where
  "diagnostics_of r = (case r of Some (Inr st) \<Rightarrow> Some (errors st) | _ \<Rightarrow> None)"

definition queries_of :: "(failure + ostate) option \<Rightarrow> (string \<times> query) list option" where
  "queries_of r = (case r of Some (Inr st) \<Rightarrow> Some (compiledNodes st) | _ \<Rightarrow> None)"

subsection \<open>An environment and documents for the examples\<close>

fun show_selection :: "selection \<Rightarrow> string" where
  "show_selection (Field f sels) =
     (if sels = [] then f else f @ '' { '' @ join (map show_selection sels) '' '' @ '' }'')"
| "show_selection (InlineFragment sels) =
     ''... { '' @ join (map show_selection sels) '' '' @ '' }''"
| "show_selection (FragmentSpread n) = ''...'' @ n"

definition example_print :: "definition_node \<Rightarrow> string" where
  "example_print d =
     (if def_kind d = OPERATION_DEFINITION then ''query '' else ''fragment '') @ def_name d @
     '' { '' @ join (map show_selection (def_selections d)) '' '' @ '' }''"

text \<open>
  Every document passes the structural rules, the global rules are the two rules on
  names, and the engine is V8.
\<close>

definition example_env :: env where
  "example_env = \<lparr> print = example_print, validate_pre = (\<lambda>doc. []),
     validate_main = (\<lambda>doc. UniqueOperationNamesRule doc @ UniqueFragmentNamesRule doc),
     graphqlError = (\<lambda>paths defs error. ([], ge_message error)),
     array_sort = v8_sort, kebabCase = id, path_relative = (\<lambda>dir p. p),
     program_directory = ''/site'', hooks_unsupported = False \<rparr>"

definition node :: "kind \<Rightarrow> string \<Rightarrow> selection list \<Rightarrow> string \<Rightarrow> definition_node" where
  "node k n sels t = \<lparr> def_kind = k, def_name = n, def_selections = sels, def_text = t,
     def_hash = ''#'' @ t, def_isHook = False, def_isStaticQuery = False,
     def_templateLoc = (1, 1) \<rparr>"

definition query_A :: definition_node where
  "query_A = node OPERATION_DEFINITION ''A'' [Field ''x'' []] ''query A { x }''"

definition query_B :: definition_node where
  "query_B = node OPERATION_DEFINITION ''B'' [FragmentSpread ''Missing''] ''query B { ...Missing }''"

text \<open>A structural rule set that rejects the documents that have a definition named Broken.\<close>

definition failing_validate :: "definition_node list \<Rightarrow> gerror list" where
  "failing_validate doc =
     map (\<lambda>d. \<lparr> ge_message = ''Unknown type'', ge_locations = [(2, 3)] \<rparr>)
       (filter (\<lambda>d. def_name d = ''Broken'') doc)"

definition strict_env :: env where
  "strict_env = example_env \<lparr> validate_pre := failing_validate \<rparr>"

definition query_Broken :: definition_node where
  "query_Broken = node OPERATION_DEFINITION ''Broken'' [Field ''y'' []] ''query Broken { y }''"

text \<open>
  A kebab case for the examples: the maximal runs of letters and digits, in lower case,
  joined by hyphens. And a relative path: the path without the directory it starts with.
\<close>

definition is_alnum :: "char \<Rightarrow> bool" where
  "is_alnum c = (let n = (of_char c :: nat) in
     (48 \<le> n \<and> n \<le> 57) \<or> (65 \<le> n \<and> n \<le> 90) \<or> (97 \<le> n \<and> n \<le> 122))"

definition to_lower :: "char \<Rightarrow> char" where
  "to_lower c =
     (let n = (of_char c :: nat) in if 65 \<le> n \<and> n \<le> 90 then char_of (n + 32) else c)"

fun words_of :: "string \<Rightarrow> string \<Rightarrow> string list" where
  "words_of cur [] = (if cur = [] then [] else [cur])"
| "words_of cur (c # cs) =
     (if is_alnum c then words_of (cur @ [to_lower c]) cs
      else (if cur = [] then [] else [cur]) @ words_of [] cs)"

definition example_kebabCase :: "string \<Rightarrow> string" where
  "example_kebabCase s = join (words_of [] s) ''-''"

definition example_relative :: "string \<Rightarrow> string \<Rightarrow> string" where
  "example_relative dir p =
     (if take (Suc (length dir)) p = dir @ ''/'' then drop (Suc (length dir)) p else p)"

definition site_env :: env where
  "site_env = example_env \<lparr> kebabCase := example_kebabCase, path_relative := example_relative \<rparr>"

definition static_query :: definition_node where
  "static_query =
     (node OPERATION_DEFINITION ''HeaderQuery'' [Field ''site'' [Field ''title'' []]]
        ''query HeaderQuery { site { title } }'') \<lparr> def_isStaticQuery := True \<rparr>"

definition fragment_PostFields :: definition_node where
  "fragment_PostFields = node FRAGMENT_DEFINITION ''PostFields'' [Field ''title'' []]
     ''fragment PostFields on Post { title }''"

definition fragment_UserFields :: definition_node where
  "fragment_UserFields = node FRAGMENT_DEFINITION ''UserFields'' [Field ''name'' []]
     ''fragment UserFields on User { name }''"

definition query_Users :: definition_node where
  "query_Users = node OPERATION_DEFINITION ''Users'' [Field ''users'' [FragmentSpread ''UserField'']]
     ''query Users { users { ...UserField } }''"

definition query_Profile :: definition_node where
  "query_Profile = node OPERATION_DEFINITION ''Profile'' [Field ''me'' [FragmentSpread ''UserFields'']]
     ''query Profile { me { ...UserFields } }''"

definition query_Team :: definition_node where
  "query_Team = node OPERATION_DEFINITION ''Team'' [Field ''team'' [FragmentSpread ''UserFields'']]
     ''query Team { team { ...UserFields } }''"

text \<open>
  For stating what the registry holds: the first fragment definition of a name in a
  list of definitions, as a registry entry, and a registry extended by the first
  fragment definitions of the names it does not hold.
\<close>

definition first_fragment :: "env \<Rightarrow> definition_node list \<Rightarrow> string \<Rightarrow> fragment_entry option" where
  "first_fragment env ds n =
     map_option (\<lambda>d. \<lparr> frag_def = d, frag_text = print env d \<rparr>)
       (find (\<lambda>d. def_kind d = FRAGMENT_DEFINITION \<and> def_name d = n) ds)"

definition registry_after :: "env \<Rightarrow> (string \<rightharpoonup> fragment_entry) \<Rightarrow> definition_node list \<Rightarrow> (string \<rightharpoonup> fragment_entry)" where
  "registry_after env m ds n = (case m n of Some e \<Rightarrow> Some e | None \<Rightarrow> first_fragment env ds n)"

definition fragment_Fx :: definition_node where
  "fragment_Fx = node FRAGMENT_DEFINITION ''F'' [Field ''x'' []] ''fragment F on T { x }''"

definition fragment_Fy :: definition_node where
  "fragment_Fy = node FRAGMENT_DEFINITION ''F'' [Field ''y'' []] ''fragment F on T { y }''"

definition query_P :: definition_node where
  "query_P = node OPERATION_DEFINITION ''P'' [FragmentSpread ''F''] ''query P { ...F }''"

definition query_Q :: definition_node where
  "query_Q = node OPERATION_DEFINITION ''Q'' [FragmentSpread ''F''] ''query Q { ...F }''"

definition conflicting_batch :: "(string \<times> definition_node list) list" where
  "conflicting_batch = [(''p.js'', [fragment_Fx, query_P]), (''q.js'', [fragment_Fy, query_Q])]"

text \<open>
  For stating when the resolution loop ends: the definitions the registry holds, and a
  registry without a cycle of spreads, every registered fragment ranking above the
  registered fragments it spreads.
\<close>

definition registered :: "(string \<times> fragment_entry) list \<Rightarrow> definition_node \<Rightarrow> bool" where
  "registered fm d = (\<exists>n e. map_of fm n = Some e \<and> d = frag_def e)"

definition acyclic_registry :: "(definition_node \<Rightarrow> nat) \<Rightarrow> (string \<times> fragment_entry) list \<Rightarrow> bool" where
  "acyclic_registry rank fm =
     (\<forall>n e n' e'. map_of fm n = Some e \<and> n' \<in> set (visit_spreads (frag_def e)) \<and>
        map_of fm n' = Some e' \<longrightarrow> rank (frag_def e') < rank (frag_def e))"

text \<open>
  What one iteration of the loop of lines 285-319 does for the spread names of the
  definition it pops: the definitions it pushes, the set of used fragments it
  leaves, and the errors it reports.
\<close>

definition pushed_by ::
  "(string \<times> fragment_entry) list \<Rightarrow> (string \<rightharpoonup> string list) \<Rightarrow> string list \<Rightarrow> definition_node list" where
  "pushed_by fm c names =
     concat (map (\<lambda>n. case c n of Some derived \<Rightarrow> []
                       | None \<Rightarrow> (case map_of fm n of Some e \<Rightarrow> [frag_def e] | None \<Rightarrow> [])) names)"

definition undefined_by ::
  "env \<Rightarrow> (string \<times> fragment_entry) list \<Rightarrow> (string \<rightharpoonup> string list) \<Rightarrow> string \<Rightarrow> string list
    \<Rightarrow> diagnostic list" where
  "undefined_by env fm c fp names =
     concat (map (\<lambda>n. case c n of Some derived \<Rightarrow> []
                       | None \<Rightarrow> (case map_of fm n of Some e \<Rightarrow> []
                           | None \<Rightarrow> [UndefinedFragment fp n (closestFragment env (map fst fm) n)]))
               names)"

definition used_by ::
  "(string \<times> fragment_entry) list \<Rightarrow> (string \<rightharpoonup> string list) \<Rightarrow> string list \<Rightarrow> string list
    \<Rightarrow> string list" where
  "used_by fm c used names =
     foldl (\<lambda>u n. case c n of Some derived \<Rightarrow> set_add (foldl set_add u derived) n
                   | None \<Rightarrow> (case map_of fm n of Some e \<Rightarrow> set_add u n | None \<Rightarrow> u)) used names"

text \<open>The state a merge has reached, and the state the loop over the operations starts in.\<close>

definition state_of :: "merge_outcome \<Rightarrow> mstate" where
  "state_of r = (case r of Merged ms \<Rightarrow> ms | Aborted ms errs \<Rightarrow> ms | MergeThrown \<Rightarrow> init_mstate)"



text \<open>
  For stating what the two indices hold: the definitions that reach the \<^verbatim>\<open>forEach\<close> of
  lines 222-229, each with its file, in the order in which they are indexed (a file's
  definitions are those its filter keeps, for the registry the files before it have
  left), and the last of them that has a given name.
\<close>

fun indexed ::
  "env \<Rightarrow> (string \<times> fragment_entry) list \<Rightarrow> (string \<times> definition_node list) list
    \<Rightarrow> (string \<times> definition_node) list" where
  "indexed env fm [] = []"
| "indexed env fm ((filePath, doc) # rest) =
     map (Pair filePath) (fst (filter_definitions env fm doc)) @
     indexed env (snd (filter_definitions env fm doc)) rest"

definition last_named :: "string \<Rightarrow> (string \<times> definition_node) list \<Rightarrow> (string \<times> definition_node) option" where
  "last_named n xs = find (\<lambda>pd. def_name (snd pd) = n) (rev xs)"

definition query_A_again :: definition_node where
  "query_A_again = node OPERATION_DEFINITION ''A'' [Field ''z'' []] ''query A { z }''"

definition fragment_Fx_copy :: definition_node where
  "fragment_Fx_copy = node FRAGMENT_DEFINITION ''F'' [Field ''x'' []] ''fragment F on T {x}''"

text \<open>For stating what a file with two operations yields.\<close>

definition is_operation :: "definition_node \<Rightarrow> bool" where
  "is_operation d = (def_kind d = OPERATION_DEFINITION)"

definition duplicate_root_of :: "string \<Rightarrow> diagnostic \<Rightarrow> bool" where
  "duplicate_root_of filePath e =
     (case e of MultipleRootQueries p d other \<Rightarrow> p = filePath | _ \<Rightarrow> False)"

definition query_B_plain :: definition_node where
  "query_B_plain = node OPERATION_DEFINITION ''B'' [Field ''y'' []] ''query B { y }''"

definition reused_name_batch :: "(string \<times> definition_node list) list" where
  "reused_name_batch = [(''a.js'', [query_A, query_B_plain]), (''c.js'', [query_A_again])]"

definition two_roots_batch :: "(string \<times> definition_node list) list" where
  "two_roots_batch = [(''fragments.js'', [fragment_UserFields]),
                      (''a.js'', [query_A, query_Profile]), (''team.js'', [query_Team])]"

text \<open>
  For comparing two batches that differ by a replacement \<open>\<sigma>\<close> of definitions: \<open>\<sigma>\<close> keeps
  the kind, the name, the printed text and the spreads of every definition; the
  registry, the merge state and the batch with \<open>\<sigma>\<close> applied to their definitions; the
  exchange of two definitions; what \<^verbatim>\<open>write\<close> returns, the map of compiled queries; and
  two states of the loop over the operations that agree on it.
\<close>

definition similar :: "env \<Rightarrow> (definition_node \<Rightarrow> definition_node) \<Rightarrow> bool" where
  "similar env \<sigma> = (\<forall>d. def_kind (\<sigma> d) = def_kind d \<and> def_name (\<sigma> d) = def_name d \<and>
     print env (\<sigma> d) = print env d \<and> visit_spreads (\<sigma> d) = visit_spreads d)"

definition map_registry ::
  "(definition_node \<Rightarrow> definition_node) \<Rightarrow> (string \<times> fragment_entry) list \<Rightarrow> (string \<times> fragment_entry) list" where
  "map_registry \<sigma> fm = map (\<lambda>ne. (fst ne, (snd ne) \<lparr> frag_def := \<sigma> (frag_def (snd ne)) \<rparr>)) fm"

definition map_mstate :: "(definition_node \<Rightarrow> definition_node) \<Rightarrow> mstate \<Rightarrow> mstate" where
  "map_mstate \<sigma> ms = \<lparr> fragmentMap = map_registry \<sigma> (fragmentMap ms), namePathMap = namePathMap ms,
     nameDefMap = map_option \<sigma> \<circ> nameDefMap ms,
     operationDefinitions = map \<sigma> (operationDefinitions ms) \<rparr>"

definition map_batch ::
  "(definition_node \<Rightarrow> definition_node) \<Rightarrow> (string \<times> definition_node list) list
    \<Rightarrow> (string \<times> definition_node list) list" where
  "map_batch \<sigma> nodes = map (\<lambda>f. (fst f, map \<sigma> (snd f))) nodes"

definition swap_definitions :: "definition_node \<Rightarrow> definition_node \<Rightarrow> definition_node \<Rightarrow> definition_node" where
  "swap_definitions d1 d2 d = (if d = d1 then d2 else if d = d2 then d1 else d)"

definition returned :: "(failure + ostate) option \<Rightarrow> (failure + (string \<times> query) list) option" where
  "returned r = map_option (map_sum id compiledNodes) r"

definition same_queries :: "ostate \<Rightarrow> ostate \<Rightarrow> bool" where
  "same_queries st1 st2 = (compiledNodes st1 = compiledNodes st2 \<and>
     usedFragmentsForFragment st1 = usedFragmentsForFragment st2)"

definition fragment_Fy_copy :: definition_node where
  "fragment_Fy_copy = node FRAGMENT_DEFINITION ''F'' [Field ''y'' []] ''fragment F on T {y}''"

definition three_definitions_batch :: "(string \<times> definition_node list) list" where
  "three_definitions_batch =
     [(''x.js'', [fragment_Fx]), (''y.js'', [fragment_Fy]), (''z.js'', [fragment_Fy_copy])]"

definition duplicates_batch :: "(string \<times> definition_node list) list" where
  "duplicates_batch = [(''p.js'', [fragment_Fx, query_P]), (''q.js'', [fragment_Fx_copy, query_Q])]"

text \<open>
  A registry in which the fragment B spreads the fragment A, and an operation that
  spreads B and C.
\<close>

definition fragment_A :: definition_node where
  "fragment_A = node FRAGMENT_DEFINITION ''A'' [Field ''a'' []] ''fragment A on T { a }''"

definition fragment_B :: definition_node where
  "fragment_B = node FRAGMENT_DEFINITION ''B'' [FragmentSpread ''A'']
     ''fragment B on T { ...A }''"

definition fragment_C :: definition_node where
  "fragment_C = node FRAGMENT_DEFINITION ''C'' [Field ''c'' []] ''fragment C on T { c }''"

definition query_BC :: definition_node where
  "query_BC = node OPERATION_DEFINITION ''BC'' [FragmentSpread ''B'', FragmentSpread ''C'']
     ''query BC { ...B ...C }''"

definition registry_ABC :: "(string \<times> fragment_entry) list" where
  "registry_ABC =
     [(''A'', \<lparr> frag_def = fragment_A, frag_text = example_print fragment_A \<rparr>),
      (''B'', \<lparr> frag_def = fragment_B, frag_text = example_print fragment_B \<rparr>),
      (''C'', \<lparr> frag_def = fragment_C, frag_text = example_print fragment_C \<rparr>)]"

text \<open>
  A site with a static query in a component and a page query; and a file whose second
  operation spreads a fragment that nobody defines.
\<close>

definition header_batch :: "(string \<times> definition_node list) list" where
  "header_batch = [(''/site/src/components/Header.js'', [static_query]),
                   (''/site/src/pages/index.js'', [query_A])]"


lemmas run_simps = v8_sort_def binary_insert_def score_comparator_def Runner_write_def init_mstate_def process_operation_def file_of_def
  structural_errors_def
  make_query_def print_document_def visit_spread_def visit_spreads_def set_add_def
  closestFragment_def global_errors_def globalDoc_def UniqueFragmentNamesRule_def
  UniqueOperationNamesRule_def
  example_env_def example_print_def node_def diagnostics_of_def queries_of_def Let_def

section \<open>The duplicate-root check comes first\<close>

text \<open>
  C4, as the code has it. The test of line 264 is the first thing the loop does for an
  operation, before the stack of line 282 exists. An operation whose file already has a
  compiled query is rejected there: it adds the duplicate-root diagnostic and nothing
  else, whatever it spreads and with no iteration of the resolution loop allowed.
\<close>

theorem duplicate_root_before_resolution:
  "map_of (compiledNodes st) (file_of ms (def_name operation)) = Some otherNode \<Longrightarrow>
   process_operation fuel env ms st operation =
     Some (Inr (st \<lparr> errors := errors st @
       [MultipleRootQueries (file_of ms (def_name operation))
          (nameDefMap ms (def_name operation)) (nameDefMap ms (q_name otherNode))] \<rparr>))"
  by (simp add: process_operation_def Let_def)

theorem duplicate_root_before_resolution_witness:
  "map_of [(''a.js'', make_query example_env ''A'' ''a.js'' query_A [] query_A)]
      (file_of (init_mstate \<lparr> namePathMap := [''B'' \<mapsto> ''a.js''] \<rparr>) (def_name query_B))
     = Some (make_query example_env ''A'' ''a.js'' query_A [] query_A) \<and>
   diagnostics_of (process_operation 0 example_env
      (init_mstate \<lparr> namePathMap := [''B'' \<mapsto> ''a.js''] \<rparr>)
      \<lparr> compiledNodes = [(''a.js'', make_query example_env ''A'' ''a.js'' query_A [] query_A)],
        errors = [], usedFragmentsForFragment = Map.empty \<rparr> query_B)
     = Some [MultipleRootQueries ''a.js'' None None]"
  using duplicate_root_before_resolution [of
      "\<lparr> compiledNodes = [(''a.js'', make_query example_env ''A'' ''a.js'' query_A [] query_A)],
         errors = [], usedFragmentsForFragment = Map.empty \<rparr>"
      "init_mstate \<lparr> namePathMap := [''B'' \<mapsto> ''a.js''] \<rparr>" query_B
      "make_query example_env ''A'' ''a.js'' query_A [] query_A" 0 example_env]
  by (simp add: file_of_def init_mstate_def query_B_def node_def diagnostics_of_def make_query_def)

text \<open>
  C4 as stated fails: in a file with the operations A and B, where B spreads a fragment
  that nobody defines, B gets the duplicate-root diagnostic although its spreads were
  never resolved, and could not have been resolved with success: the only
  diagnostic of the run is the duplicate-root one, none reports the missing fragment.
\<close>

theorem duplicate_root_without_resolution_counterexample:
  "diagnostics_of (Runner_write 1 example_env [(''a.js'', [query_A, query_B])])
     = Some [MultipleRootQueries ''a.js'' (Some query_B) (Some query_A)]"
  by (simp add: run_simps query_A_def query_B_def)

section \<open>A file that fails the structural rules ends the run\<close>

lemma merge_files_passing_prefix:
  "\<forall>f \<in> set pre. validate_pre env (snd f) = [] \<Longrightarrow>
   \<exists>ms'. merge_files env ms pre = Merged ms' \<and>
         (\<forall>rest. merge_files env ms (pre @ rest) = merge_files env ms' rest)"
proof (induction pre arbitrary: ms)
  case Nil
  then show ?case by simp
next
  case (Cons f pre)
  obtain filePath doc where f: "f = (filePath, doc)" by (cases f)
  from Cons.prems f have ok: "validate_pre env doc = []"
    and others: "\<forall>g \<in> set pre. validate_pre env (snd g) = []"
    by auto
  obtain defs fm where fd: "filter_definitions env (fragmentMap ms) doc = (defs, fm)"
    by (cases "filter_definitions env (fragmentMap ms) doc")
  from Cons.IH [OF others, of "index_definitions filePath (ms \<lparr> fragmentMap := fm \<rparr>) defs"]
  show ?case using f ok fd by simp
qed

text \<open>
  C2. Let the files before \<open>filePath\<close> pass the structural rules and let the document of
  \<open>filePath\<close>, with first definition \<open>d0\<close>, fail them. Then the loop of lines 178-230
  stops at \<open>filePath\<close> in the state \<open>ms'\<close> that the files before it have built: the
  registry, the two indices and the operation list hold nothing of \<open>filePath\<close> or of
  the files \<open>rest\<close> after it. The run returns there, for every \<open>rest\<close> and with
  no resolution step, the empty map of compiled queries, having reported the
  structural errors of \<open>filePath\<close>.
\<close>

theorem structural_failure_abandons_batch:
  assumes "\<forall>f \<in> set pre. validate_pre env (snd f) = []"
    and "validate_pre env (d0 # doc) \<noteq> []"
  shows "\<exists>ms'. merge_files env init_mstate pre = Merged ms' \<and>
           merge_files env init_mstate (pre @ (filePath, d0 # doc) # rest) =
             Aborted ms' (structural_errors filePath d0 (validate_pre env (d0 # doc))) \<and>
           Runner_write fuel env (pre @ (filePath, d0 # doc) # rest) =
             Some (Inr \<lparr> compiledNodes = [],
                          errors = structural_errors filePath d0 (validate_pre env (d0 # doc)),
                          usedFragmentsForFragment = Map.empty \<rparr>)"
proof -
  from merge_files_passing_prefix [OF assms(1), of init_mstate]
  obtain ms' where before: "merge_files env init_mstate pre = Merged ms'"
    and after: "\<And>rest. merge_files env init_mstate (pre @ rest) = merge_files env ms' rest"
    by blast
  have "merge_files env ms' ((filePath, d0 # doc) # rest) =
          Aborted ms' (structural_errors filePath d0 (validate_pre env (d0 # doc)))"
    using assms(2) by (simp add: Let_def)
  with before after show ?thesis by (simp add: Runner_write_def)
qed

theorem structural_failure_abandons_batch_witness:
  "\<exists>ms'. merge_files strict_env init_mstate [(''a.js'', [query_A])] = Merged ms' \<and>
     merge_files strict_env init_mstate
        ([(''a.js'', [query_A])] @ (''b.js'', query_Broken # [query_B]) # [(''c.js'', [query_B])]) =
       Aborted ms' [StructuralError ''b.js'' ''Unknown type'' (1, 1) (Some (2, 3))] \<and>
     Runner_write 0 strict_env
        ([(''a.js'', [query_A])] @ (''b.js'', query_Broken # [query_B]) # [(''c.js'', [query_B])]) =
       Some (Inr \<lparr> compiledNodes = [],
                    errors = [StructuralError ''b.js'' ''Unknown type'' (1, 1) (Some (2, 3))],
                    usedFragmentsForFragment = Map.empty \<rparr>)"
  using structural_failure_abandons_batch [of "[(''a.js'', [query_A])]" strict_env query_Broken
      "[query_B]" "''b.js''" "[(''c.js'', [query_B])]" 0]
  by (simp add: strict_env_def example_env_def failing_validate_def query_A_def query_B_def
      query_Broken_def node_def structural_errors_def)

section \<open>The entries of the returned map\<close>

lemma process_operation_entries:
  assumes "process_operation fuel env ms st operation = Some (Inr st')"
    and "(p, q) \<in> set (compiledNodes st')"
  shows "(p, q) \<in> set (compiledNodes st) \<or>
         (p = file_of ms (def_name operation) \<and>
          (\<exists>nd fragments. q = make_query env (def_name operation) p nd fragments operation))"
  using assms
  by (fastforce simp: process_operation_def Let_def split: option.splits if_splits prod.splits)

lemma run_operations_entries:
  assumes "run_operations fuel env ms st ops = Some (Inr st')"
    and "(p, q) \<in> set (compiledNodes st')"
  shows "(p, q) \<in> set (compiledNodes st) \<or>
         (\<exists>operation nd fragments. operation \<in> set ops \<and> p = file_of ms (def_name operation) \<and>
            q = make_query env (def_name operation) p nd fragments operation)"
  using assms
proof (induction ops arbitrary: st)
  case Nil
  then show ?case by simp
next
  case (Cons operation ops)
  then obtain st1 where step: "process_operation fuel env ms st operation = Some (Inr st1)"
    and run: "run_operations fuel env ms st1 ops = Some (Inr st')"
    by (auto split: option.splits sum.splits)
  from Cons.IH [OF run Cons.prems(2)] process_operation_entries [OF step, of p q]
  show ?case by auto
qed

lemma Runner_write_entries:
  assumes "Runner_write fuel env nodes = Some (Inr st)"
    and "(p, q) \<in> set (compiledNodes st)"
  shows "\<exists>operation nd fragments. q = make_query env (def_name operation) p nd fragments operation"
proof (cases "merge_files env init_mstate nodes")
  case (Merged ms)
  with assms have "run_operations fuel env ms
      \<lparr> compiledNodes = [], errors = global_errors env ms, usedFragmentsForFragment = Map.empty \<rparr>
      (operationDefinitions ms) = Some (Inr st)"
    by (simp add: Runner_write_def)
  from run_operations_entries [OF this assms(2)] show ?thesis by auto
next
  case (Aborted ms errs)
  with assms show ?thesis by (auto simp: Runner_write_def)
next
  case MergeThrown
  with assms show ?thesis by (simp add: Runner_write_def)
qed

section \<open>The suggested fragment name\<close>

lemma run_extend_never_negative:
  "(\<And>a b. 0 \<le> cmp a b) \<Longrightarrow> run_extend cmp False previous xs = length xs"
  by (induction xs arbitrary: previous) (simp_all add: Let_def not_less)

lemma v8_sort_never_negative:
  assumes "\<And>a b. 0 \<le> cmp a b"
  shows "v8_sort cmp xs = xs"
proof (cases xs)
  case Nil
  then show ?thesis by (simp add: v8_sort_def)
next
  case (Cons x0 ys)
  show ?thesis
  proof (cases ys)
    case Nil
    with Cons show ?thesis by (simp add: v8_sort_def)
  next
    case (Cons x1 rest)
    have "\<not> cmp x1 x0 < 0" using assms [of x1 x0] by simp
    with \<open>xs = x0 # ys\<close> Cons show ?thesis
      by (simp add: v8_sort_def Let_def run_extend_never_negative [OF assms])
  qed
qed

lemma score_comparator_never_negative: "0 \<le> score_comparator a b"
  by (simp add: score_comparator_def)

text \<open>
  C7, as the code runs on V8. The comparator of line 306 returns a boolean, so its
  result is never negative and the sort moves nothing: the suggestion is the first
  registered name, in the order of registration, whose distance to the missing name is
  below 10, whether or not a later name is closer.
\<close>

theorem closest_is_first_candidate:
  assumes "array_sort env = v8_sort"
  shows "closestFragment env fragmentNames name =
     (case filter (\<lambda>f. levenshtein name f < 10) fragmentNames of
        [] \<Rightarrow> None | f # _ \<Rightarrow> Some f)"
proof -
  have candidates:
    "filter (\<lambda>f. snd f < 10) (map (\<lambda>f. (f, levenshtein name f)) fragmentNames) =
       map (\<lambda>f. (f, levenshtein name f)) (filter (\<lambda>f. levenshtein name f < 10) fragmentNames)"
    by (induction fragmentNames) simp_all
  show ?thesis
    unfolding closestFragment_def assms candidates
      v8_sort_never_negative [of score_comparator, OF score_comparator_never_negative]
    by (simp split: list.splits)
qed

lemma distances:
  "levenshtein ''UserField'' ''PostFields'' = 5" "levenshtein ''UserField'' ''UserFields'' = 1"
  by code_simp+

text \<open>
  With PostFields registered before UserFields, a spread of UserField is answered with
  PostFields, at distance 5, and not with UserFields, at distance 1.
\<close>

theorem closest_is_first_candidate_witness:
  "closestFragment example_env [''PostFields'', ''UserFields''] ''UserField'' = Some ''PostFields'' \<and>
   levenshtein ''UserField'' ''PostFields'' = 5 \<and> levenshtein ''UserField'' ''UserFields'' = 1 \<and>
   diagnostics_of (Runner_write 1 example_env
       [(''fragments.js'', [fragment_PostFields, fragment_UserFields]), (''users.js'', [query_Users])])
     = Some [UndefinedFragment ''users.js'' ''UserField'' (Some ''PostFields'')]"
  using closest_is_first_candidate [of example_env "[''PostFields'', ''UserFields'']" "''UserField''"]
    distances
  by (simp add: Runner_write_def init_mstate_def process_operation_def file_of_def
      make_query_def print_document_def visit_spread_def visit_spreads_def set_add_def
      global_errors_def globalDoc_def UniqueFragmentNamesRule_def
      UniqueOperationNamesRule_def example_env_def example_print_def node_def
      diagnostics_of_def Let_def
      fragment_PostFields_def fragment_UserFields_def query_Users_def)

section \<open>The cache of fragment dependencies\<close>

lemma process_operation_cache:
  "process_operation fuel env ms st operation = Some (Inr st') \<Longrightarrow>
   usedFragmentsForFragment st' = usedFragmentsForFragment st"
  by (auto simp: process_operation_def Let_def split: option.splits if_splits prod.splits)

lemma run_operations_cache:
  "run_operations fuel env ms st ops = Some (Inr st') \<Longrightarrow>
   usedFragmentsForFragment st' = usedFragmentsForFragment st"
proof (induction ops arbitrary: st)
  case Nil
  then show ?case by simp
next
  case (Cons operation ops)
  then obtain st1 where step: "process_operation fuel env ms st operation = Some (Inr st1)"
    and run: "run_operations fuel env ms st1 ops = Some (Inr st')"
    by (auto split: option.splits sum.splits)
  from Cons.IH [OF run] process_operation_cache [OF step] show ?case by simp
qed

text \<open>
  C6, as the code has it. \<^verbatim>\<open>usedFragmentsForFragment\<close> is created empty (line 258) and
  read (lines 290-295); no line writes to it. It is empty at the end of every run.
\<close>

theorem cache_never_populated:
  "Runner_write fuel env nodes = Some (Inr st) \<Longrightarrow> usedFragmentsForFragment st = Map.empty"
  by (cases "merge_files env init_mstate nodes")
     (auto simp: Runner_write_def dest: run_operations_cache)

text \<open>
  Two operations spread the fragment UserFields: both are compiled, and after the
  second the cache still has no entry.
\<close>

theorem cache_never_populated_witness:
  "\<exists>st. Runner_write 2 example_env
       [(''fragments.js'', [fragment_UserFields]), (''profile.js'', [query_Profile]),
        (''team.js'', [query_Team])] = Some (Inr st) \<and>
     map fst (compiledNodes st) = [''profile.js'', ''team.js''] \<and>
     errors st = [] \<and>
     usedFragmentsForFragment st = Map.empty"
  using cache_never_populated [of 2 example_env
       "[(''fragments.js'', [fragment_UserFields]), (''profile.js'', [query_Profile]),
        (''team.js'', [query_Team])]"]
  by (simp add: run_simps fragment_UserFields_def query_Profile_def query_Team_def
        numeral_2_eq_2)

text \<open>
  The branch of lines 290-296 is reached with no state that a run produces. Entered
  with a cache that holds the closures of A and B, it adds the fragments of the closure
  before the fragment itself, where the traversal through the registry adds them when
  their definition is popped: the same fragments, in another order of
  \<^verbatim>\<open>usedFragments\<close>, which is the order of the definitions of the printed document.
\<close>

lemma cache_hit_changes_order:
  "resolve 4 example_env registry_ABC Map.empty ''q.js'' ([query_BC], [], []) =
     Some ([''B'', ''C'', ''A''], []) \<and>
   resolve 4 example_env registry_ABC [''A'' \<mapsto> [], ''B'' \<mapsto> [''A'']] ''q.js''
     ([query_BC], [], []) = Some ([''A'', ''B'', ''C''], [])"
  by (simp add: eval_nat_numeral visit_spread_def visit_spreads_def set_add_def
      registry_ABC_def fragment_A_def fragment_B_def fragment_C_def query_BC_def node_def)

section \<open>Fragment definitions that share a name\<close>

lemma registry_after_Nil [simp]: "registry_after env m [] = m"
  by (rule ext) (simp add: registry_after_def first_fragment_def split: option.splits)

lemma find_append_cases:
  "find P (xs @ ys) = (case find P xs of None \<Rightarrow> find P ys | Some x \<Rightarrow> Some x)"
  by (induction xs) simp_all

lemma registry_after_append:
  "registry_after env m (xs @ ys) = registry_after env (registry_after env m xs) ys"
  by (rule ext) (auto simp: registry_after_def first_fragment_def find_append_cases split: option.splits)

lemma filter_definitions_registry:
  "map_of (snd (filter_definitions env fm ds)) = registry_after env (map_of fm) ds"
proof (induction ds arbitrary: fm)
  case Nil
  then show ?case by simp
next
  case (Cons d ds)
  show ?case
  proof (rule ext)
    fix n
    show "map_of (snd (filter_definitions env fm (d # ds))) n = registry_after env (map_of fm) (d # ds) n"
      using Cons.IH [of fm]
        Cons.IH [of "fm @ [(def_name d, \<lparr> frag_def = d, frag_text = print env d \<rparr>)]"]
      by (auto simp: registry_after_def first_fragment_def map_add_def
          split: option.splits prod.splits if_splits)
  qed
qed


lemma filter_definitions_snd_Cons:
  "snd (filter_definitions env fm (d # ds)) =
     snd (filter_definitions env
       (if def_kind d = FRAGMENT_DEFINITION \<and> map_of fm (def_name d) = None
        then fm @ [(def_name d, \<lparr> frag_def = d, frag_text = print env d \<rparr>)] else fm) ds)"
  by (simp split: option.splits prod.splits)

lemma filter_definitions_distinct:
  "distinct (map fst fm) \<Longrightarrow> distinct (map fst (snd (filter_definitions env fm ds)))"
proof (induction ds arbitrary: fm)
  case Nil
  then show ?case by simp
next
  case (Cons d ds)
  show ?case
    unfolding filter_definitions_snd_Cons
    by (rule Cons.IH) (use Cons.prems in \<open>auto simp: map_of_eq_None_iff\<close>)
qed

lemma index_definitions_fragmentMap [simp]:
  "fragmentMap (index_definitions filePath ms defs) = fragmentMap ms"
  by (induction defs arbitrary: ms) simp_all

lemma index_definitions_operations:
  "operationDefinitions (index_definitions filePath ms defs) =
     operationDefinitions ms @ filter (\<lambda>d. def_kind d = OPERATION_DEFINITION) defs"
  by (induction defs arbitrary: ms) simp_all

lemma merge_files_registry:
  "merge_files env ms nodes = Merged ms' \<Longrightarrow>
   map_of (fragmentMap ms') = registry_after env (map_of (fragmentMap ms)) (concat (map snd nodes))"
proof (induction nodes arbitrary: ms)
  case Nil
  then show ?case by simp
next
  case (Cons f nodes)
  obtain filePath doc where f: "f = (filePath, doc)" by (cases f)
  obtain defs fm where fd: "filter_definitions env (fragmentMap ms) doc = (defs, fm)"
    by (cases "filter_definitions env (fragmentMap ms) doc")
  from Cons.prems f fd
  have rest: "merge_files env (index_definitions filePath (ms \<lparr> fragmentMap := fm \<rparr>) defs) nodes = Merged ms'"
    by (simp add: Let_def split: if_splits list.splits)
  from filter_definitions_registry [of env "fragmentMap ms" doc] fd
  have "map_of fm = registry_after env (map_of (fragmentMap ms)) doc" by simp
  with Cons.IH [OF rest] f show ?case by (simp add: registry_after_append)
qed

lemma merge_files_distinct:
  "merge_files env ms nodes = Merged ms' \<Longrightarrow> distinct (map fst (fragmentMap ms)) \<Longrightarrow>
   distinct (map fst (fragmentMap ms'))"
proof (induction nodes arbitrary: ms)
  case Nil
  then show ?case by simp
next
  case (Cons f nodes)
  obtain filePath doc where f: "f = (filePath, doc)" by (cases f)
  obtain defs fm where fd: "filter_definitions env (fragmentMap ms) doc = (defs, fm)"
    by (cases "filter_definitions env (fragmentMap ms) doc")
  from Cons.prems(1) f fd
  have rest: "merge_files env (index_definitions filePath (ms \<lparr> fragmentMap := fm \<rparr>) defs) nodes = Merged ms'"
    by (simp add: Let_def split: if_splits list.splits)
  from filter_definitions_distinct [OF Cons.prems(2), of env doc] fd
  have "distinct (map fst fm)" by simp
  with Cons.IH [OF rest] show ?case by simp
qed

lemma merge_files_operations:
  "merge_files env ms nodes = Merged ms' \<Longrightarrow>
   \<forall>d \<in> set (operationDefinitions ms). def_kind d = OPERATION_DEFINITION \<Longrightarrow>
   \<forall>d \<in> set (operationDefinitions ms'). def_kind d = OPERATION_DEFINITION"
proof (induction nodes arbitrary: ms)
  case Nil
  then show ?case by simp
next
  case (Cons f nodes)
  obtain filePath doc where f: "f = (filePath, doc)" by (cases f)
  obtain defs fm where fd: "filter_definitions env (fragmentMap ms) doc = (defs, fm)"
    by (cases "filter_definitions env (fragmentMap ms) doc")
  from Cons.prems(1) f fd
  have rest: "merge_files env (index_definitions filePath (ms \<lparr> fragmentMap := fm \<rparr>) defs) nodes = Merged ms'"
    by (simp add: Let_def split: if_splits list.splits)
  show ?case
    by (rule Cons.IH [OF rest]) (use Cons.prems(2) in \<open>auto simp: index_definitions_operations\<close>)
qed

lemma find_SomeD: "find P xs = Some x \<Longrightarrow> P x"
  by (induction xs) (auto split: if_splits)

lemma unique_fragment_names_operations:
  "\<forall>d \<in> set ops. def_kind d = OPERATION_DEFINITION \<Longrightarrow>
   unique_fragment_names known (ops @ ds) = unique_fragment_names known ds"
  by (induction ops) auto

lemma unique_fragment_names_distinct:
  "distinct (map def_name ds) \<Longrightarrow> set (map def_name ds) \<inter> set known = {} \<Longrightarrow>
   unique_fragment_names known ds = []"
  by (induction ds arbitrary: known) auto

text \<open>
  C1, as the code has it. When all files pass the structural rules, the registry maps
  a name to the first fragment definition of that name in the batch and to nothing
  else: a later definition of the name with another text stays in its file's list and
  never reaches the registry. The document of the global validation takes its
  fragments from the registry (line 236), so it has one fragment definition for each
  name and the rule on fragment names has nothing to report.
\<close>

theorem conflicting_fragments_first_wins:
  assumes "merge_files env init_mstate nodes = Merged ms"
  shows "map_of (fragmentMap ms) = first_fragment env (concat (map snd nodes)) \<and>
         distinct (map fst (fragmentMap ms)) \<and>
         UniqueFragmentNamesRule (globalDoc ms) = []"
proof -
  have reg: "map_of (fragmentMap ms) = first_fragment env (concat (map snd nodes))"
    using merge_files_registry [OF assms]
    by (auto simp: init_mstate_def registry_after_def)
  have dist: "distinct (map fst (fragmentMap ms))"
    using merge_files_distinct [OF assms] by (simp add: init_mstate_def)
  have ops: "\<forall>d \<in> set (operationDefinitions ms). def_kind d = OPERATION_DEFINITION"
    using merge_files_operations [OF assms] by (simp add: init_mstate_def)
  have names: "def_name (frag_def e) = n" if "(n, e) \<in> set (fragmentMap ms)" for n e
  proof -
    from that dist have "map_of (fragmentMap ms) n = Some e" by simp
    with reg have "first_fragment env (concat (map snd nodes)) n = Some e" by simp
    then show ?thesis
      by (auto simp: first_fragment_def dest: find_SomeD)
  qed
  then have "map def_name (map (\<lambda>(n, e). frag_def e) (fragmentMap ms)) = map fst (fragmentMap ms)"
    by (auto simp: case_prod_beta intro!: map_cong [OF refl])
  with dist have "unique_fragment_names [] (map (\<lambda>(n, e). frag_def e) (fragmentMap ms)) = []"
    by (intro unique_fragment_names_distinct) (simp_all del: map_map)
  with ops have "UniqueFragmentNamesRule (globalDoc ms) = []"
    by (simp add: UniqueFragmentNamesRule_def globalDoc_def unique_fragment_names_operations)
  with reg dist show ?thesis by simp
qed

lemmas conflicting_batch_simps = conflicting_batch_def fragment_Fx_def fragment_Fy_def
  query_P_def query_Q_def

text \<open>
  Two files define the fragment F with different selections. The run reports nothing,
  and both compiled queries carry the definition of the first file.
\<close>

theorem conflicting_fragments_first_wins_witness:
  "\<exists>ms. merge_files example_env init_mstate conflicting_batch = Merged ms \<and>
     print example_env fragment_Fx = ''fragment F { x }'' \<and>
     print example_env fragment_Fy = ''fragment F { y }'' \<and>
     map_of (fragmentMap ms) ''F'' = Some \<lparr> frag_def = fragment_Fx, frag_text = ''fragment F { x }'' \<rparr> \<and>
     globalDoc ms = [query_P, query_Q, fragment_Fx] \<and>
     UniqueFragmentNamesRule (globalDoc ms) = [] \<and>
     diagnostics_of (Runner_write 2 example_env conflicting_batch) = Some [] \<and>
     map_option (map (\<lambda>pq. (fst pq, q_text (snd pq)))) (queries_of (Runner_write 2 example_env conflicting_batch)) =
       Some [(''p.js'', ''fragment F { x }'' @ [CHR 0x0A, CHR 0x0A] @ ''query P { ...F }'' @ [CHR 0x0A]),
             (''q.js'', ''fragment F { x }'' @ [CHR 0x0A, CHR 0x0A] @ ''query Q { ...F }'' @ [CHR 0x0A])]"
proof (cases "merge_files example_env init_mstate conflicting_batch")
  case (Merged ms)
  from conflicting_fragments_first_wins [OF Merged]
  have registry: "map_of (fragmentMap ms) = first_fragment example_env (concat (map snd conflicting_batch))"
    and rule: "UniqueFragmentNamesRule (globalDoc ms) = []"
    by simp_all
  have doc: "globalDoc ms = [query_P, query_Q, fragment_Fx]"
    using Merged by (auto simp: run_simps conflicting_batch_simps)
  have F: "map_of (fragmentMap ms) ''F'' =
      Some \<lparr> frag_def = fragment_Fx, frag_text = ''fragment F { x }'' \<rparr>"
    unfolding registry
    by (simp add: first_fragment_def conflicting_batch_simps example_env_def example_print_def node_def)
  have prints: "print example_env fragment_Fx = ''fragment F { x }''"
    "print example_env fragment_Fy = ''fragment F { y }''"
    by (simp_all add: conflicting_batch_simps example_env_def example_print_def node_def)
  have run: "diagnostics_of (Runner_write 2 example_env conflicting_batch) = Some []"
    "map_option (map (\<lambda>pq. (fst pq, q_text (snd pq)))) (queries_of (Runner_write 2 example_env conflicting_batch)) =
       Some [(''p.js'', ''fragment F { x }'' @ [CHR 0x0A, CHR 0x0A] @ ''query P { ...F }'' @ [CHR 0x0A]),
             (''q.js'', ''fragment F { x }'' @ [CHR 0x0A, CHR 0x0A] @ ''query Q { ...F }'' @ [CHR 0x0A])]"
    by (simp_all add: run_simps conflicting_batch_simps numeral_2_eq_2)
  show ?thesis
    by (rule exI [of _ ms]) (intro conjI Merged prints F doc rule run)
next
  case (Aborted ms errs)
  then show ?thesis by (simp add: run_simps conflicting_batch_simps)
next
  case MergeThrown
  then show ?thesis by (simp add: run_simps conflicting_batch_simps)
qed

section \<open>The resolution loop\<close>

lemma visit_spread_cases:
  "visit_spread env fm c fp (stack, used, errs) n =
     (case c n of
        Some derived \<Rightarrow> (stack, set_add (foldl set_add used derived) n, errs)
      | None \<Rightarrow>
          (case map_of fm n of
             Some e \<Rightarrow> (stack @ [frag_def e], set_add used n, errs)
           | None \<Rightarrow> (stack, used,
               errs @ [UndefinedFragment fp n (closestFragment env (map fst fm) n)])))"
  by (simp add: visit_spread_def)

lemma foldl_visit_spread:
  "foldl (visit_spread env fm c fp) (stack, used, errs) names =
     (stack @ pushed_by fm c names, used_by fm c used names, errs @ undefined_by env fm c fp names)"
proof (induction names arbitrary: stack used errs)
  case Nil
  then show ?case by (simp add: pushed_by_def used_by_def undefined_by_def)
next
  case (Cons n names)
  show ?case
    by (cases "c n"; cases "map_of fm n")
       (simp_all add: visit_spread_cases Cons.IH pushed_by_def used_by_def undefined_by_def)
qed

lemma resolve_Suc:
  "stack \<noteq> [] \<Longrightarrow>
   resolve (Suc k) env fm c fp (stack, used, errs) =
     resolve k env fm c fp
       (butlast stack @ pushed_by fm c (visit_spreads (last stack)),
        used_by fm c used (visit_spreads (last stack)),
        errs @ undefined_by env fm c fp (visit_spreads (last stack)))"
  by (cases stack) (simp_all add: foldl_visit_spread del: butlast.simps last.simps)

lemma pushed_by_registered: "p \<in> set (pushed_by fm c names) \<Longrightarrow>
  \<exists>n e. n \<in> set names \<and> map_of fm n = Some e \<and> p = frag_def e"
  by (auto simp: pushed_by_def split: option.splits) metis

text \<open>
  On a registry without a cycle the loop ends, whatever stack of registered
  definitions it starts from: the ranks on the stack decrease in the multiset order.
\<close>

lemma resolve_terminates:
  assumes acyclic: "acyclic_registry rank fm"
  shows "\<forall>d \<in> set stack. registered fm d \<Longrightarrow>
         \<exists>k r. resolve k env fm c fp (stack, used, errs) = Some r"
proof (induction "mset (map rank stack)" arbitrary: stack used errs rule: wfp_induct_rule [OF wfp_less_multiset [OF wfp_on_less]])
  case less: 1
  show ?case
  proof (cases "stack = []")
    case True
    then show ?thesis by (auto intro: exI [of _ 0])
  next
    case False
    define d where "d = last stack"
    define pushed where "pushed = pushed_by fm c (visit_spreads d)"
    from False have stack: "stack = butlast stack @ [d]" by (simp add: d_def)
    then have d_in: "d \<in> set stack" by (metis in_set_conv_decomp)
    with less.prems have reg_d: "registered fm d" by blast
    have smaller: "rank p < rank d" and reg_p: "registered fm p" if "p \<in> set pushed" for p
    proof -
      from that obtain n e where "n \<in> set (visit_spreads d)" "map_of fm n = Some e" "p = frag_def e"
        unfolding pushed_def by (blast dest: pushed_by_registered)
      with reg_d acyclic show "rank p < rank d" "registered fm p"
        unfolding acyclic_registry_def registered_def by blast+
    qed
    have "mset (map rank (butlast stack)) + mset (map rank pushed) <
          mset (map rank (butlast stack)) + {# rank d #}"
      unfolding less_multiset_def
      by (rule one_step_implies_multp) (use smaller in auto)
    also have "mset (map rank (butlast stack)) + {# rank d #} = mset (map rank stack)"
      by (subst (2) stack) simp
    finally have "mset (map rank (butlast stack @ pushed)) < mset (map rank stack)" by simp
    moreover have "\<forall>p \<in> set (butlast stack @ pushed). registered fm p"
      using less.prems reg_p by (auto dest: in_set_butlastD)
    ultimately obtain k r where
      "resolve k env fm c fp (butlast stack @ pushed, used_by fm c used (visit_spreads d),
         errs @ undefined_by env fm c fp (visit_spreads d)) = Some r"
      using less.hyps by blast
    then have "resolve (Suc k) env fm c fp (stack, used, errs) = Some r"
      using False by (simp add: resolve_Suc d_def pushed_def)
    then show ?thesis by blast
  qed
qed


lemma resolve_invariant:
  assumes "resolve k env fm c fp (stack, used, errs) = Some (used', errs')"
    and "P used errs"
    and step: "\<And>used errs names. P used errs \<Longrightarrow>
                 P (used_by fm c used names) (errs @ undefined_by env fm c fp names)"
  shows "P used' errs'"
  using assms(1,2)
proof (induction k arbitrary: stack used errs)
  case 0
  then show ?case by (cases stack) simp_all
next
  case (Suc k)
  show ?case
  proof (cases "stack = []")
    case True
    with Suc.prems show ?thesis by simp
  next
    case False
    from Suc.prems(1) have "resolve k env fm c fp
       (butlast stack @ pushed_by fm c (visit_spreads (last stack)),
        used_by fm c used (visit_spreads (last stack)),
        errs @ undefined_by env fm c fp (visit_spreads (last stack))) = Some (used', errs')"
      by (simp add: resolve_Suc [OF False])
    then show ?thesis by (rule Suc.IH) (rule step [OF Suc.prems(2)])
  qed
qed

lemma used_by_registered:
  "set used \<subseteq> dom (map_of fm) \<Longrightarrow> set (used_by fm Map.empty used names) \<subseteq> dom (map_of fm)"
proof (induction names arbitrary: used)
  case Nil
  then show ?case by (simp add: used_by_def)
next
  case (Cons n names)
  have "set (case map_of fm n of Some e \<Rightarrow> set_add used n | None \<Rightarrow> used) \<subseteq> dom (map_of fm)"
    using Cons.prems by (auto simp: set_add_def split: option.splits)
  from Cons.IH [OF this] show ?case by (simp add: used_by_def)
qed

lemma lookup_all_registered:
  "set used \<subseteq> dom (map_of fm) \<Longrightarrow>
   \<exists>ds. lookup_all fm used = Some ds \<and> (\<forall>d \<in> set ds. registered fm d)"
proof (induction used)
  case Nil
  then show ?case by simp
next
  case (Cons n used)
  then obtain ds e where "lookup_all fm used = Some ds" "\<forall>d \<in> set ds. registered fm d"
    "map_of fm n = Some e"
    by auto
  moreover from this have "registered fm (frag_def e)"
    unfolding registered_def by blast
  ultimately show ?case by simp
qed

lemma index_definitions_nameDefMap_dom:
  "dom (nameDefMap (index_definitions filePath ms defs)) = dom (nameDefMap ms) \<union> def_name ` set defs"
  by (induction defs arbitrary: ms) auto

lemma merge_files_operations_indexed:
  "merge_files env ms nodes = Merged ms' \<Longrightarrow>
   def_name ` set (operationDefinitions ms) \<subseteq> dom (nameDefMap ms) \<Longrightarrow>
   def_name ` set (operationDefinitions ms') \<subseteq> dom (nameDefMap ms')"
proof (induction nodes arbitrary: ms)
  case Nil
  then show ?case by simp
next
  case (Cons f nodes)
  obtain filePath doc where f: "f = (filePath, doc)" by (cases f)
  obtain defs fm where fd: "filter_definitions env (fragmentMap ms) doc = (defs, fm)"
    by (cases "filter_definitions env (fragmentMap ms) doc")
  from Cons.prems(1) f fd
  have rest: "merge_files env (index_definitions filePath (ms \<lparr> fragmentMap := fm \<rparr>) defs) nodes = Merged ms'"
    by (simp add: Let_def split: if_splits list.splits)
  show ?case
    by (rule Cons.IH [OF rest])
       (use Cons.prems(2) in \<open>auto simp: index_definitions_operations index_definitions_nameDefMap_dom\<close>)
qed




section \<open>An operation with an undefined fragment is compiled\<close>





section \<open>The indices by name\<close>

lemma last_named_append:
  "last_named n (xs @ ys) = (case last_named n ys of Some pd \<Rightarrow> Some pd | None \<Rightarrow> last_named n xs)"
  by (simp add: last_named_def find_append_cases split: option.splits)

lemma last_named_Nil [simp]: "last_named n [] = None"
  by (simp add: last_named_def)

lemma last_named_Cons_Pair:
  "last_named n (map (Pair fp) (d # ds)) =
     (case last_named n (map (Pair fp) ds) of Some pd \<Rightarrow> Some pd
      | None \<Rightarrow> if def_name d = n then Some (fp, d) else None)"
  using last_named_append [of n "[(fp, d)]" "map (Pair fp) ds"]
  by (simp add: last_named_def split: option.splits)

lemma index_definitions_maps:
  "namePathMap (index_definitions fp ms defs) n =
     (case last_named n (map (Pair fp) defs) of Some pd \<Rightarrow> Some (fst pd) | None \<Rightarrow> namePathMap ms n) \<and>
   nameDefMap (index_definitions fp ms defs) n =
     (case last_named n (map (Pair fp) defs) of Some pd \<Rightarrow> Some (snd pd) | None \<Rightarrow> nameDefMap ms n)"
proof (induction defs arbitrary: ms)
  case Nil
  then show ?case by simp
next
  case (Cons d defs)
  show ?case
    unfolding last_named_Cons_Pair index_definitions.simps
    by (simp add: Cons.IH split: option.splits)
qed

lemma merge_files_indices:
  "merge_files env ms nodes = Merged ms' \<Longrightarrow>
   namePathMap ms' n =
     (case last_named n (indexed env (fragmentMap ms) nodes) of
        Some pd \<Rightarrow> Some (fst pd) | None \<Rightarrow> namePathMap ms n) \<and>
   nameDefMap ms' n =
     (case last_named n (indexed env (fragmentMap ms) nodes) of
        Some pd \<Rightarrow> Some (snd pd) | None \<Rightarrow> nameDefMap ms n)"
proof (induction nodes arbitrary: ms)
  case Nil
  then show ?case by simp
next
  case (Cons f nodes)
  obtain filePath doc where f: "f = (filePath, doc)" by (cases f)
  obtain defs fm where fd: "filter_definitions env (fragmentMap ms) doc = (defs, fm)"
    by (cases "filter_definitions env (fragmentMap ms) doc")
  define ms1 where "ms1 = index_definitions filePath (ms \<lparr> fragmentMap := fm \<rparr>) defs"
  from Cons.prems f fd
  have rest: "merge_files env ms1 nodes = Merged ms'"
    by (simp add: Let_def ms1_def split: if_splits list.splits)
  have fm1: "fragmentMap ms1 = fm" by (simp add: ms1_def)
  from index_definitions_maps [of filePath "ms \<lparr> fragmentMap := fm \<rparr>" defs n]
  have one: "namePathMap ms1 n =
      (case last_named n (map (Pair filePath) defs) of Some pd \<Rightarrow> Some (fst pd) | None \<Rightarrow> namePathMap ms n)"
    "nameDefMap ms1 n =
      (case last_named n (map (Pair filePath) defs) of Some pd \<Rightarrow> Some (snd pd) | None \<Rightarrow> nameDefMap ms n)"
    by (simp_all add: ms1_def split: option.splits)
  from Cons.IH [OF rest] show ?case
    by (simp add: f fd fm1 one last_named_append split: option.splits)
qed

lemma pushed_by_empty_registry [simp]: "pushed_by [] c names = []"
  by (simp add: pushed_by_def split: option.splits)

lemma used_by_empty_registry [simp]: "used_by [] Map.empty used names = used"
  unfolding used_by_def by (induction names) simp_all

lemma q_name_make_query [simp]: "q_name (make_query env name fp nd fragments operation) = name"
  by (simp add: make_query_def)





section \<open>What the filter keeps and what is indexed\<close>

lemma filter_definitions_fst_Cons:
  "fst (filter_definitions env fm (d # ds)) =
     (if def_kind d = FRAGMENT_DEFINITION \<and>
         (\<exists>e. map_of fm (def_name d) = Some e \<and> print env d = frag_text e)
      then fst (filter_definitions env fm ds)
      else d # fst (filter_definitions env
        (if def_kind d = FRAGMENT_DEFINITION \<and> map_of fm (def_name d) = None
         then fm @ [(def_name d, \<lparr> frag_def = d, frag_text = print env d \<rparr>)] else fm) ds))"
  by (auto split: option.splits prod.splits)

lemma filter_definitions_subset:
  "set (fst (filter_definitions env fm ds)) \<subseteq> set ds"
proof (induction ds arbitrary: fm)
  case Nil
  then show ?case by simp
next
  case (Cons d ds)
  show ?case
    unfolding filter_definitions_fst_Cons
    using Cons.IH by (auto simp del: filter_definitions.simps)
qed

lemma filter_definitions_keeps_operations:
  "filter is_operation (fst (filter_definitions env fm ds)) = filter is_operation ds"
proof (induction ds arbitrary: fm)
  case Nil
  then show ?case by simp
next
  case (Cons d ds)
  show ?case
    unfolding filter_definitions_fst_Cons
    using Cons.IH by (cases "def_kind d") (simp_all add: is_operation_def del: filter_definitions.simps)
qed

lemma merge_files_operation_list:
  "merge_files env ms nodes = Merged ms' \<Longrightarrow>
   operationDefinitions ms' =
     operationDefinitions ms @ concat (map (\<lambda>f. filter is_operation (snd f)) nodes)"
proof (induction nodes arbitrary: ms)
  case Nil
  then show ?case by simp
next
  case (Cons f nodes)
  obtain filePath doc where f: "f = (filePath, doc)" by (cases f)
  obtain defs fm where fd: "filter_definitions env (fragmentMap ms) doc = (defs, fm)"
    by (cases "filter_definitions env (fragmentMap ms) doc")
  from Cons.prems f fd
  have rest: "merge_files env (index_definitions filePath (ms \<lparr> fragmentMap := fm \<rparr>) defs) nodes = Merged ms'"
    by (simp add: Let_def split: if_splits list.splits)
  from filter_definitions_keeps_operations [of env "fragmentMap ms" doc] fd
  have "filter is_operation defs = filter is_operation doc" by simp
  with Cons.IH [OF rest] show ?case
    by (simp add: f index_definitions_operations is_operation_def [abs_def])
qed

lemma indexed_subset:
  "(p, d) \<in> set (indexed env fm nodes) \<Longrightarrow> \<exists>doc. (p, doc) \<in> set nodes \<and> d \<in> set doc"
proof (induction nodes arbitrary: fm)
  case Nil
  then show ?case by simp
next
  case (Cons f nodes)
  obtain filePath doc where f: "f = (filePath, doc)" by (cases f)
  from Cons.prems f consider "p = filePath" "d \<in> set (fst (filter_definitions env fm doc))"
    | "(p, d) \<in> set (indexed env (snd (filter_definitions env fm doc)) nodes)"
    by auto
  then show ?case
  proof cases
    case 1
    with filter_definitions_subset [of env fm doc] f show ?thesis by auto
  next
    case 2
    from Cons.IH [OF this] show ?thesis by auto
  qed
qed

lemma indexed_operations:
  "(p, doc) \<in> set nodes \<Longrightarrow> d \<in> set doc \<Longrightarrow> is_operation d \<Longrightarrow>
   (p, d) \<in> set (indexed env fm nodes)"
proof (induction nodes arbitrary: fm)
  case Nil
  then show ?case by simp
next
  case (Cons f nodes)
  obtain filePath doc' where f: "f = (filePath, doc')" by (cases f)
  show ?case
  proof (cases "(p, doc) = f")
    case True
    from Cons.prems(2,3) have "d \<in> set (filter is_operation doc)" by simp
    then have "d \<in> set (filter is_operation (fst (filter_definitions env fm doc)))"
      by (simp only: filter_definitions_keeps_operations)
    then have "d \<in> set (fst (filter_definitions env fm doc))" by simp
    with True f show ?thesis by auto
  next
    case False
    with Cons.prems(1) have "(p, doc) \<in> set nodes" by simp
    from Cons.IH [OF this Cons.prems(2,3)] f show ?thesis by simp
  qed
qed

lemma find_Some_set: "find P xs = Some x \<Longrightarrow> x \<in> set xs"
  by (induction xs) (auto split: if_splits)

lemma last_named_SomeD:
  "last_named n xs = Some pd \<Longrightarrow> pd \<in> set xs \<and> def_name (snd pd) = n"
  unfolding last_named_def
  using find_Some_set [of _ "rev xs" pd] find_SomeD [of _ "rev xs" pd] by auto

lemma last_named_NoneD:
  "last_named n xs = None \<Longrightarrow> pd \<in> set xs \<Longrightarrow> def_name (snd pd) \<noteq> n"
  unfolding last_named_def by (cases pd) (auto simp: find_None_iff)


section \<open>The loop over the operations\<close>

lemma undefined_by_no_duplicate_root [simp]:
  "filter (duplicate_root_of F) (undefined_by env fm c fp names) = []"
  by (induction names) (auto simp: undefined_by_def duplicate_root_of_def split: option.splits)

lemma resolve_no_duplicate_root:
  assumes "resolve k env fm c fp (stack, used, errs) = Some (used', errs')"
    and "filter (duplicate_root_of F) errs = []"
  shows "filter (duplicate_root_of F) errs' = []"
  by (rule resolve_invariant [OF assms(1), where P = "\<lambda>used errs. filter (duplicate_root_of F) errs = []"])
     (simp_all add: assms(2))

lemma global_errors_no_duplicate_root [simp]:
  "filter (duplicate_root_of F) (global_errors env ms) = []"
  by (simp add: global_errors_def duplicate_root_of_def filter_empty_conv split: prod.splits)

lemma process_operation_cases:
  assumes "process_operation fuel env ms st operation = Some (Inr st')"
  obtains (duplicate) otherNode where
      "map_of (compiledNodes st) (file_of ms (def_name operation)) = Some otherNode"
      "st' = st \<lparr> errors := errors st @
         [MultipleRootQueries (file_of ms (def_name operation))
            (nameDefMap ms (def_name operation)) (nameDefMap ms (q_name otherNode))] \<rparr>"
  | (compiled) used errs fragments nd where
      "map_of (compiledNodes st) (file_of ms (def_name operation)) = None"
      "resolve fuel env (fragmentMap ms) (usedFragmentsForFragment st)
         (file_of ms (def_name operation)) ([operation], [], []) = Some (used, errs)"
      "lookup_all (fragmentMap ms) used = Some fragments"
      "nameDefMap ms (def_name operation) = Some nd"
      "st' = st \<lparr> compiledNodes := compiledNodes st @
           [(file_of ms (def_name operation),
             make_query env (def_name operation) (file_of ms (def_name operation)) nd fragments operation)],
         errors := errors st @ errs \<rparr>"
  using assms
  by (auto simp: process_operation_def Let_def split: option.splits if_splits prod.splits)

lemma process_operation_other_file:
  assumes "process_operation fuel env ms st operation = Some (Inr st')"
    and "file_of ms (def_name operation) \<noteq> F"
  shows "map_of (compiledNodes st') F = map_of (compiledNodes st) F \<and>
         filter (duplicate_root_of F) (errors st') = filter (duplicate_root_of F) (errors st)"
  using assms(1)
proof (cases rule: process_operation_cases)
  case (duplicate otherNode)
  with assms(2) show ?thesis by (simp add: duplicate_root_of_def)
next
  case (compiled used errs fragments nd)
  from resolve_no_duplicate_root [OF compiled(2), of F]
  have "filter (duplicate_root_of F) errs = []" by simp
  with compiled(5) assms(2) show ?thesis by (auto simp: map_add_def split: option.splits)
qed

lemma run_operations_other_files:
  assumes "run_operations fuel env ms st ops = Some (Inr st')"
    and "\<forall>operation \<in> set ops. file_of ms (def_name operation) \<noteq> F"
  shows "map_of (compiledNodes st') F = map_of (compiledNodes st) F \<and>
         filter (duplicate_root_of F) (errors st') = filter (duplicate_root_of F) (errors st)"
  using assms
proof (induction ops arbitrary: st)
  case Nil
  then show ?case by simp
next
  case (Cons operation ops)
  then obtain st1 where step: "process_operation fuel env ms st operation = Some (Inr st1)"
    and run: "run_operations fuel env ms st1 ops = Some (Inr st')"
    by (auto split: option.splits sum.splits)
  from Cons.IH [OF run] Cons.prems(2) process_operation_other_file [OF step, of F]
  show ?case by simp
qed

lemma run_operations_append:
  "run_operations fuel env ms st (xs @ ys) = Some (Inr st') \<Longrightarrow>
   \<exists>st1. run_operations fuel env ms st xs = Some (Inr st1) \<and>
         run_operations fuel env ms st1 ys = Some (Inr st')"
  by (induction xs arbitrary: st) (auto split: option.splits sum.splits)

lemma process_operation_distinct:
  assumes "process_operation fuel env ms st operation = Some (Inr st')"
    and "distinct (map fst (compiledNodes st))"
  shows "distinct (map fst (compiledNodes st'))"
  using assms(1)
proof (cases rule: process_operation_cases)
  case (duplicate otherNode)
  with assms(2) show ?thesis by simp
next
  case (compiled used errs fragments nd)
  with assms(2) show ?thesis by (simp add: map_of_eq_None_iff)
qed

lemma run_operations_distinct:
  "run_operations fuel env ms st ops = Some (Inr st') \<Longrightarrow>
   distinct (map fst (compiledNodes st)) \<Longrightarrow> distinct (map fst (compiledNodes st'))"
proof (induction ops arbitrary: st)
  case Nil
  then show ?case by simp
next
  case (Cons operation ops)
  then obtain st1 where step: "process_operation fuel env ms st operation = Some (Inr st1)"
    and run: "run_operations fuel env ms st1 ops = Some (Inr st')"
    by (auto split: option.splits sum.splits)
  from Cons.IH [OF run process_operation_distinct [OF step Cons.prems(2)]] show ?case .
qed


section \<open>Two operations in one file\<close>

lemma merged_lookup:
  assumes merged: "merge_files env init_mstate nodes = Merged ms"
    and "(p, doc) \<in> set nodes" "d \<in> set doc" "is_operation d"
  obtains q d' doc' where "namePathMap ms (def_name d) = Some q" "nameDefMap ms (def_name d) = Some d'"
    "(q, doc') \<in> set nodes" "d' \<in> set doc'" "def_name d' = def_name d"
proof -
  from indexed_operations [OF assms(2-4), of env "[]"]
  have "(p, d) \<in> set (indexed env [] nodes)" .
  with last_named_NoneD [of "def_name d" "indexed env [] nodes" "(p, d)"]
  obtain q d' where last: "last_named (def_name d) (indexed env [] nodes) = Some (q, d')"
    by (cases "last_named (def_name d) (indexed env [] nodes)") auto
  from last_named_SomeD [OF last] have "(q, d') \<in> set (indexed env [] nodes)"
    and name: "def_name d' = def_name d" by simp_all
  from indexed_subset [OF this(1)] obtain doc' where "(q, doc') \<in> set nodes" "d' \<in> set doc'"
    by blast
  moreover from merge_files_indices [OF merged, of "def_name d"] last
  have "namePathMap ms (def_name d) = Some q" "nameDefMap ms (def_name d) = Some d'"
    by (simp_all add: init_mstate_def)
  ultimately show ?thesis using name that by blast
qed

lemma two_operations_result:
  assumes returns: "Runner_write fuel env nodes = Some (Inr st)"
    and passes: "\<forall>f \<in> set nodes. validate_pre env (snd f) = []"
    and paths: "distinct (map fst nodes)"
    and in_batch: "(F, doc) \<in> set nodes"
    and two: "filter is_operation doc = [a, b]"
    and differ: "def_name a \<noteq> def_name b"
    and own_names: "\<forall>f \<in> set nodes. \<forall>d \<in> set (snd f).
          def_name d = def_name a \<or> def_name d = def_name b \<longrightarrow> fst f = F \<and> (d = a \<or> d = b)"
    and other_files: "\<forall>f \<in> set nodes. \<forall>d \<in> set (snd f).
          is_operation d \<and> fst f \<noteq> F \<longrightarrow> def_name d \<notin> def_name ` set doc"
  shows "filter (duplicate_root_of F) (errors st) = [MultipleRootQueries F (Some b) (Some a)] \<and>
         distinct (map fst (compiledNodes st)) \<and>
         (\<exists>fragments. map_of (compiledNodes st) F =
            Some (make_query env (def_name a) F a fragments a))"
proof -
  from merge_files_passing_prefix [OF passes, of init_mstate]
  obtain ms where merged: "merge_files env init_mstate nodes = Merged ms" by blast
  from in_batch obtain pre post where nodes: "nodes = pre @ (F, doc) # post"
    by (meson split_list)
  define ops where "ops = (\<lambda>fs :: (string \<times> definition_node list) list.
    concat (map (\<lambda>f. filter is_operation (snd f)) fs))"
  have op_list: "operationDefinitions ms = ops pre @ a # b # ops post"
    using merge_files_operation_list [OF merged] two
    by (simp add: nodes ops_def init_mstate_def)
  from two have "set (filter is_operation doc) = {a, b}" by simp
  then have a_doc: "a \<in> set doc" "is_operation a" and b_doc: "b \<in> set doc" "is_operation b"
    by auto
  have unique_doc: "doc' = doc" if "(F, doc') \<in> set nodes" for doc'
    using map_of_is_SomeI [OF paths that] map_of_is_SomeI [OF paths in_batch] by simp
  have lookup_a: "namePathMap ms (def_name a) = Some F \<and> nameDefMap ms (def_name a) = Some a"
  proof -
    from merged_lookup [OF merged in_batch a_doc]
    obtain q d' doc' where l: "namePathMap ms (def_name a) = Some q" "nameDefMap ms (def_name a) = Some d'"
      "(q, doc') \<in> set nodes" "d' \<in> set doc'" "def_name d' = def_name a" by blast
    with own_names [rule_format, of "(q, doc')" d'] differ have "q = F \<and> d' = a" by auto
    with l show ?thesis by simp
  qed
  have lookup_b: "namePathMap ms (def_name b) = Some F \<and> nameDefMap ms (def_name b) = Some b"
  proof -
    from merged_lookup [OF merged in_batch b_doc]
    obtain q d' doc' where l: "namePathMap ms (def_name b) = Some q" "nameDefMap ms (def_name b) = Some d'"
      "(q, doc') \<in> set nodes" "d' \<in> set doc'" "def_name d' = def_name b" by blast
    with own_names [rule_format, of "(q, doc')" d'] differ have "q = F \<and> d' = b" by auto
    with l show ?thesis by simp
  qed
  have elsewhere: "file_of ms (def_name operation) \<noteq> F"
    if "operation \<in> set (ops pre @ ops post)" for operation
  proof -
    from that obtain G dG where G: "(G, dG) \<in> set pre \<union> set post" "operation \<in> set dG"
      "is_operation operation"
      by (auto simp: ops_def) blast+
    from G(1) paths have "G \<noteq> F" by (auto simp: nodes intro: rev_image_eqI)
    from G(1) have in_nodes: "(G, dG) \<in> set nodes" by (auto simp: nodes)
    from merged_lookup [OF merged in_nodes G(2,3)]
    obtain q d' doc' where l: "namePathMap ms (def_name operation) = Some q"
      "(q, doc') \<in> set nodes" "d' \<in> set doc'" "def_name d' = def_name operation" by blast
    have "q \<noteq> F"
    proof
      assume "q = F"
      with l unique_doc have "d' \<in> set doc" by blast
      with l(4) have "def_name operation \<in> def_name ` set doc" by (metis imageI)
      with other_files [rule_format, of "(G, dG)" operation] in_nodes G(2,3) \<open>G \<noteq> F\<close>
      show False by simp
    qed
    with l(1) show ?thesis by (simp add: file_of_def)
  qed
  define st0 where "st0 = \<lparr> compiledNodes = [], errors = global_errors env ms,
    usedFragmentsForFragment = Map.empty \<rparr>"
  from returns merged have "run_operations fuel env ms st0 (ops pre @ a # b # ops post) = Some (Inr st)"
    by (simp add: Runner_write_def op_list st0_def)
  from run_operations_append [OF this]
  obtain st1 where run1: "run_operations fuel env ms st0 (ops pre) = Some (Inr st1)"
    and rest1: "run_operations fuel env ms st1 (a # b # ops post) = Some (Inr st)"
    by blast
  from rest1 obtain st2 st3 where step_a: "process_operation fuel env ms st1 a = Some (Inr st2)"
    and step_b: "process_operation fuel env ms st2 b = Some (Inr st3)"
    and run3: "run_operations fuel env ms st3 (ops post) = Some (Inr st)"
    by (auto split: option.splits sum.splits)
  have file_a: "file_of ms (def_name a) = F" and file_b: "file_of ms (def_name b) = F"
    using lookup_a lookup_b by (simp_all add: file_of_def)
  from run_operations_other_files [OF run1, of F] elsewhere
  have st1: "map_of (compiledNodes st1) F = None" "filter (duplicate_root_of F) (errors st1) = []"
    by (simp_all add: st0_def)
  from step_a obtain fragments where
    st2: "map_of (compiledNodes st2) F = Some (make_query env (def_name a) F a fragments a)"
      "filter (duplicate_root_of F) (errors st2) = []"
  proof (cases rule: process_operation_cases)
    case (duplicate otherNode)
    with st1 file_a show ?thesis by simp
  next
    case (compiled used errs fragments nd)
    from resolve_no_duplicate_root [OF compiled(2), of F]
    have "filter (duplicate_root_of F) errs = []" by simp
    with compiled st1 file_a lookup_a that [of fragments] show ?thesis
      by (simp add: map_add_def)
  qed
  from step_b have
    st3: "map_of (compiledNodes st3) F = Some (make_query env (def_name a) F a fragments a) \<and>
      filter (duplicate_root_of F) (errors st3) = [MultipleRootQueries F (Some b) (Some a)]"
  proof (cases rule: process_operation_cases)
    case (duplicate otherNode)
    with st2 file_b lookup_a lookup_b show ?thesis
      by (auto simp: duplicate_root_of_def)
  next
    case (compiled used errs fragments' nd)
    with st2 file_b show ?thesis by simp
  qed
  from run_operations_other_files [OF run3, of F] elsewhere st3
  have "map_of (compiledNodes st) F = Some (make_query env (def_name a) F a fragments a)"
    and "filter (duplicate_root_of F) (errors st) = [MultipleRootQueries F (Some b) (Some a)]"
    by simp_all
  moreover from returns merged have "distinct (map fst (compiledNodes st))"
    by (auto simp: Runner_write_def dest: run_operations_distinct)
  ultimately show ?thesis by blast
qed

section \<open>A run over a registry without cycles returns\<close>

lemma resolve_mono:
  "resolve k env fm c fp s = Some r \<Longrightarrow> resolve (k + j) env fm c fp s = Some r"
proof (induction k arbitrary: s)
  case 0
  obtain stack used errs where s: "s = (stack, used, errs)" by (cases s)
  with 0 show ?case by (cases stack) auto
next
  case (Suc k)
  obtain stack used errs where s: "s = (stack, used, errs)" by (cases s)
  show ?case
  proof (cases stack)
    case Nil
    with Suc.prems s show ?thesis by auto
  next
    case (Cons d stack')
    with Suc.prems s Suc.IH show ?thesis by simp
  qed
qed

lemma process_operation_mono:
  "process_operation k env ms st operation = Some r \<Longrightarrow>
   process_operation (k + j) env ms st operation = Some r"
  unfolding process_operation_def Let_def
  by (auto split: option.splits dest: resolve_mono [where j = j])

lemma run_operations_mono:
  "run_operations k env ms st ops = Some r \<Longrightarrow> run_operations (k + j) env ms st ops = Some r"
proof (induction ops arbitrary: st)
  case Nil
  then show ?case by simp
next
  case (Cons operation ops)
  from Cons.prems obtain r1 where step: "process_operation k env ms st operation = Some r1"
    by (auto split: option.splits)
  from process_operation_mono [OF step, of j] Cons.prems step Cons.IH
  show ?case by (auto split: sum.splits)
qed

lemma process_operation_returns:
  assumes merged: "merge_files env init_mstate nodes = Merged ms"
    and operation: "operation \<in> set (operationDefinitions ms)"
    and acyclic: "acyclic_registry rank (fragmentMap ms)"
    and cache: "usedFragmentsForFragment st = Map.empty"
    and hooks: "\<not> hooks_unsupported env"
  shows "\<exists>k st'. process_operation k env ms st operation = Some (Inr st')"
proof (cases "map_of (compiledNodes st) (file_of ms (def_name operation))")
  case (Some otherNode)
  then show ?thesis by (auto simp: process_operation_def Let_def)
next
  case None
  define fp where "fp = file_of ms (def_name operation)"
  define fm where "fm = fragmentMap ms"
  define c :: "string \<rightharpoonup> string list" where "c = Map.empty"
  define names where "names = visit_spreads operation"
  have "\<forall>d \<in> set (pushed_by fm c names). registered fm d"
    unfolding registered_def by (blast dest: pushed_by_registered)
  from resolve_terminates [OF acyclic [folded fm_def] this]
  obtain k used' errs' where res:
    "resolve k env fm c fp (pushed_by fm c names, used_by fm c [] names,
       [] @ undefined_by env fm c fp names) = Some (used', errs')"
    by fastforce
  have "set used' \<subseteq> dom (map_of fm)"
    by (rule resolve_invariant [OF res, where P = "\<lambda>used errs. set used \<subseteq> dom (map_of fm)"])
       (use used_by_registered [of _ fm] in \<open>simp_all add: c_def\<close>)
  with lookup_all_registered [of used' fm]
  obtain fragments where frs: "lookup_all fm used' = Some fragments" by blast
  from merge_files_operations_indexed [OF merged] operation
  obtain nd where nd: "nameDefMap ms (def_name operation) = Some nd"
    by (auto simp: init_mstate_def)
  have run: "resolve (Suc k) env fm c fp ([operation], [], []) = Some (used', errs')"
    using res by (simp add: foldl_visit_spread names_def)
  have "process_operation (Suc k) env ms st operation =
      Some (Inr (st \<lparr> compiledNodes := compiledNodes st @
          [(fp, make_query env (def_name operation) fp nd fragments operation)],
        errors := errors st @ errs' \<rparr>))"
    using None run frs nd hooks
    by (simp add: process_operation_def Let_def fp_def [symmetric] fm_def [symmetric]
        cache c_def [symmetric])
  then show ?thesis by blast
qed

lemma run_operations_returns:
  assumes merged: "merge_files env init_mstate nodes = Merged ms"
    and acyclic: "acyclic_registry rank (fragmentMap ms)"
    and hooks: "\<not> hooks_unsupported env"
  shows "set ops \<subseteq> set (operationDefinitions ms) \<Longrightarrow> usedFragmentsForFragment st = Map.empty \<Longrightarrow>
         \<exists>k st'. run_operations k env ms st ops = Some (Inr st')"
proof (induction ops arbitrary: st)
  case Nil
  then show ?case by simp
next
  case (Cons operation ops)
  from process_operation_returns [OF merged _ acyclic Cons.prems(2) hooks, of operation] Cons.prems(1)
  obtain k1 st1 where step: "process_operation k1 env ms st operation = Some (Inr st1)" by auto
  from process_operation_cache [OF step] Cons.prems(2)
  have "usedFragmentsForFragment st1 = Map.empty" by simp
  from Cons.IH [OF _ this] Cons.prems(1)
  obtain k2 st' where run: "run_operations k2 env ms st1 ops = Some (Inr st')" by auto
  from process_operation_mono [OF step, of k2] run_operations_mono [OF run, of k1]
  have "run_operations (k1 + k2) env ms st (operation # ops) = Some (Inr st')"
    by (simp add: add.commute)
  then show ?case by blast
qed

lemma Runner_write_returns:
  assumes "\<forall>f \<in> set nodes. validate_pre env (snd f) = []"
    and "acyclic_registry rank (fragmentMap (state_of (merge_files env init_mstate nodes)))"
    and "\<not> hooks_unsupported env"
  shows "\<exists>fuel st. Runner_write fuel env nodes = Some (Inr st)"
proof -
  from merge_files_passing_prefix [OF assms(1), of init_mstate]
  obtain ms where merged: "merge_files env init_mstate nodes = Merged ms" by blast
  with assms(2) have "acyclic_registry rank (fragmentMap ms)" by (simp add: state_of_def)
  from run_operations_returns [OF merged this assms(3), of "operationDefinitions ms"
      "\<lparr> compiledNodes = [], errors = global_errors env ms, usedFragmentsForFragment = Map.empty \<rparr>"]
  show ?thesis using merged by (simp add: Runner_write_def)
qed

text \<open>
  C3, as the code has it. Let all files pass the structural rules and let the file \<open>F\<close>
  have exactly the two operations \<open>a\<close> and \<open>b\<close>, in this order, with two names that no
  other definition of the batch has, while no operation of another file has the name
  of a definition of \<open>F\<close>. Then every run that returns has reported exactly one
  duplicate root for \<open>F\<close>, naming \<open>b\<close> and \<open>a\<close>; its map has one entry for each path, and
  the entry of \<open>F\<close> is the query of \<open>a\<close>: the name, the original text, the hash and the
  flags of \<open>a\<close>, and the print of \<open>a\<close> after its fragments. And the run does return,
  for some number of iterations, when the registry has no cycle of spreads and the
  runtime supports hooks.
\<close>

theorem two_operations_in_one_file:
  assumes passes: "\<forall>f \<in> set nodes. validate_pre env (snd f) = []"
    and paths: "distinct (map fst nodes)"
    and in_batch: "(F, doc) \<in> set nodes"
    and two: "filter is_operation doc = [a, b]"
    and differ: "def_name a \<noteq> def_name b"
    and own_names: "\<forall>f \<in> set nodes. \<forall>d \<in> set (snd f).
          def_name d = def_name a \<or> def_name d = def_name b \<longrightarrow> fst f = F \<and> (d = a \<or> d = b)"
    and other_files: "\<forall>f \<in> set nodes. \<forall>d \<in> set (snd f).
          is_operation d \<and> fst f \<noteq> F \<longrightarrow> def_name d \<notin> def_name ` set doc"
  shows "(\<forall>fuel st. Runner_write fuel env nodes = Some (Inr st) \<longrightarrow>
            filter (duplicate_root_of F) (errors st) = [MultipleRootQueries F (Some b) (Some a)] \<and>
            distinct (map fst (compiledNodes st)) \<and>
            (\<exists>fragments. map_of (compiledNodes st) F =
               Some (make_query env (def_name a) F a fragments a))) \<and>
         (acyclic_registry rank (fragmentMap (state_of (merge_files env init_mstate nodes))) \<and>
          \<not> hooks_unsupported env \<longrightarrow>
            (\<exists>fuel st. Runner_write fuel env nodes = Some (Inr st)))"
  using two_operations_result [OF _ assms] Runner_write_returns [OF passes, of rank]
  by blast

lemma two_roots_run:
  "\<exists>st. Runner_write 2 example_env two_roots_batch = Some (Inr st)"
  by (simp add: run_simps two_roots_batch_def fragment_UserFields_def query_A_def
      query_Profile_def query_Team_def numeral_2_eq_2)

theorem two_operations_in_one_file_witness:
  "\<exists>st. Runner_write 2 example_env two_roots_batch = Some (Inr st) \<and>
     filter (duplicate_root_of ''a.js'') (errors st) =
       [MultipleRootQueries ''a.js'' (Some query_Profile) (Some query_A)] \<and>
     distinct (map fst (compiledNodes st)) \<and>
     (\<exists>fragments. map_of (compiledNodes st) ''a.js'' =
        Some (make_query example_env ''A'' ''a.js'' query_A fragments query_A))"
proof -
  from two_roots_run obtain st where run: "Runner_write 2 example_env two_roots_batch = Some (Inr st)"
    by blast
  have "\<forall>f \<in> set two_roots_batch. validate_pre example_env (snd f) = []"
    and "distinct (map fst two_roots_batch)"
    and "(''a.js'', [query_A, query_Profile]) \<in> set two_roots_batch"
    and "filter is_operation [query_A, query_Profile] = [query_A, query_Profile]"
    and "def_name query_A \<noteq> def_name query_Profile"
    and "\<forall>f \<in> set two_roots_batch. \<forall>d \<in> set (snd f).
          def_name d = def_name query_A \<or> def_name d = def_name query_Profile \<longrightarrow>
          fst f = ''a.js'' \<and> (d = query_A \<or> d = query_Profile)"
    and "\<forall>f \<in> set two_roots_batch. \<forall>d \<in> set (snd f).
          is_operation d \<and> fst f \<noteq> ''a.js'' \<longrightarrow>
          def_name d \<notin> def_name ` set [query_A, query_Profile]"
    by (simp_all add: two_roots_batch_def example_env_def is_operation_def fragment_UserFields_def
        query_A_def query_Profile_def query_Team_def node_def)
  note result = two_operations_in_one_file [OF this, of "\<lambda>d. 0", THEN conjunct1, rule_format, OF run]
  have name: "def_name query_A = ''A''" by (simp add: query_A_def node_def)
  show ?thesis
    by (rule exI [of _ st]) (rule conjI [OF run result [unfolded name]])
qed

text \<open>
  C3 as stated fails when a later file has an operation with the name of the first one:
  the file \<^verbatim>\<open>a.js\<close> has the operations A and B, the file \<^verbatim>\<open>c.js\<close> has another operation A.
  Both indices then map A to \<^verbatim>\<open>c.js\<close>. The first A is compiled under \<^verbatim>\<open>c.js\<close>, B is
  compiled under \<^verbatim>\<open>a.js\<close>, and the only duplicate root is reported for \<^verbatim>\<open>c.js\<close>: the
  entry of \<^verbatim>\<open>a.js\<close> is its second operation, and no duplicate root names \<^verbatim>\<open>a.js\<close>.
\<close>

theorem reused_operation_name_counterexample:
  "filter is_operation [query_A, query_B_plain] = [query_A, query_B_plain] \<and>
   map_option (map (\<lambda>pq. (fst pq, q_name (snd pq), q_text (snd pq))))
      (queries_of (Runner_write 1 example_env reused_name_batch)) =
     Some [(''c.js'', ''A'', ''query A { x }'' @ [CHR 0x0A]),
           (''a.js'', ''B'', ''query B { y }'' @ [CHR 0x0A])] \<and>
   diagnostics_of (Runner_write 1 example_env reused_name_batch) =
     Some [GlobalError None ''There can be only one operation named A'',
           MultipleRootQueries ''c.js'' (Some query_A_again) (Some query_A_again)]"
  by (simp add: run_simps reused_name_batch_def is_operation_def query_A_def query_B_plain_def
      query_A_again_def)

section \<open>Exact duplicates of a fragment\<close>

lemma map_of_map_registry:
  "map_of (map_registry \<sigma> fm) n = map_option (\<lambda>e. e \<lparr> frag_def := \<sigma> (frag_def e) \<rparr>) (map_of fm n)"
  unfolding map_registry_def by (induction fm) auto

lemma map_registry_append [simp]:
  "map_registry \<sigma> (xs @ ys) = map_registry \<sigma> xs @ map_registry \<sigma> ys"
  by (simp add: map_registry_def)

lemma map_fst_map_registry [simp]: "map fst (map_registry \<sigma> fm) = map fst fm"
  by (simp add: map_registry_def comp_def)

lemma filter_definitions_similar_parts:
  assumes "similar env \<sigma>"
  shows "fst (filter_definitions env (map_registry \<sigma> fm) (map \<sigma> ds)) =
           map \<sigma> (fst (filter_definitions env fm ds)) \<and>
         snd (filter_definitions env (map_registry \<sigma> fm) (map \<sigma> ds)) =
           map_registry \<sigma> (snd (filter_definitions env fm ds))"
proof (induction ds arbitrary: fm)
  case Nil
  then show ?case by simp
next
  case (Cons d ds)
  from assms have s: "def_kind (\<sigma> d) = def_kind d" "def_name (\<sigma> d) = def_name d"
    "print env (\<sigma> d) = print env d"
    by (simp_all add: similar_def)
  have new: "map_registry \<sigma> fm @ [(def_name d, \<lparr> frag_def = \<sigma> d, frag_text = print env d \<rparr>)] =
      map_registry \<sigma> (fm @ [(def_name d, \<lparr> frag_def = d, frag_text = print env d \<rparr>)])"
    by (simp add: map_registry_def)
  show ?case
    unfolding list.map filter_definitions_fst_Cons filter_definitions_snd_Cons
    by (cases "map_of fm (def_name d)")
       (simp_all add: s map_of_map_registry new Cons.IH del: filter_definitions.simps map_registry_append)
qed

lemma filter_definitions_similar:
  assumes "similar env \<sigma>"
  shows "filter_definitions env (map_registry \<sigma> fm) (map \<sigma> ds) =
     (map \<sigma> (fst (filter_definitions env fm ds)), map_registry \<sigma> (snd (filter_definitions env fm ds)))"
  using filter_definitions_similar_parts [OF assms, of fm ds]
  by (simp add: prod_eq_iff)

lemma index_definitions_similar:
  "similar env \<sigma> \<Longrightarrow>
   index_definitions fp (map_mstate \<sigma> ms) (map \<sigma> defs) = map_mstate \<sigma> (index_definitions fp ms defs)"
proof (induction defs arbitrary: ms)
  case Nil
  then show ?case by simp
next
  case (Cons d defs)
  from Cons.prems have s: "def_kind (\<sigma> d) = def_kind d" "def_name (\<sigma> d) = def_name d"
    by (simp_all add: similar_def)
  have "map_mstate \<sigma> ms
      \<lparr> namePathMap := (namePathMap (map_mstate \<sigma> ms))(def_name d \<mapsto> fp),
        nameDefMap := (nameDefMap (map_mstate \<sigma> ms))(def_name d \<mapsto> \<sigma> d),
        operationDefinitions :=
          (if def_kind d = OPERATION_DEFINITION then operationDefinitions (map_mstate \<sigma> ms) @ [\<sigma> d]
           else operationDefinitions (map_mstate \<sigma> ms)) \<rparr> =
     map_mstate \<sigma> (ms
      \<lparr> namePathMap := (namePathMap ms)(def_name d \<mapsto> fp),
        nameDefMap := (nameDefMap ms)(def_name d \<mapsto> d),
        operationDefinitions :=
          (if def_kind d = OPERATION_DEFINITION then operationDefinitions ms @ [d]
           else operationDefinitions ms) \<rparr>)"
    by (auto simp: map_mstate_def fun_eq_iff)
  with Cons.IH [OF Cons.prems] show ?case by (simp add: s)
qed

lemma merge_files_similar:
  assumes "similar env \<sigma>"
  shows "\<forall>f \<in> set nodes. validate_pre env (snd f) = [] \<and> validate_pre env (map \<sigma> (snd f)) = [] \<Longrightarrow>
     \<exists>ms'. merge_files env ms nodes = Merged ms' \<and>
           merge_files env (map_mstate \<sigma> ms) (map_batch \<sigma> nodes) = Merged (map_mstate \<sigma> ms')"
proof (induction nodes arbitrary: ms)
  case Nil
  then show ?case by (simp add: map_batch_def)
next
  case (Cons f nodes)
  obtain filePath doc where f: "f = (filePath, doc)" by (cases f)
  obtain defs fm where fd: "filter_definitions env (fragmentMap ms) doc = (defs, fm)"
    by (cases "filter_definitions env (fragmentMap ms) doc")
  from filter_definitions_similar [OF assms, of "fragmentMap ms" doc] fd
  have fd': "filter_definitions env (fragmentMap (map_mstate \<sigma> ms)) (map \<sigma> doc) =
      (map \<sigma> defs, map_registry \<sigma> fm)"
    by (simp add: map_mstate_def)
  have upd: "map_mstate \<sigma> ms \<lparr> fragmentMap := map_registry \<sigma> fm \<rparr> =
      map_mstate \<sigma> (ms \<lparr> fragmentMap := fm \<rparr>)"
    by (simp add: map_mstate_def)
  from Cons.prems f have ok: "validate_pre env doc = []" "validate_pre env (map \<sigma> doc) = []"
    and others: "\<forall>g \<in> set nodes. validate_pre env (snd g) = [] \<and> validate_pre env (map \<sigma> (snd g)) = []"
    by auto
  from Cons.IH [OF others, of "index_definitions filePath (ms \<lparr> fragmentMap := fm \<rparr>) defs"]
  show ?case
    using f ok fd fd'
    by (simp add: map_batch_def upd index_definitions_similar [OF assms])
qed

lemma pushed_by_similar:
  "pushed_by (map_registry \<sigma> fm) c names = map \<sigma> (pushed_by fm c names)"
  unfolding pushed_by_def
  by (induction names) (auto simp: map_of_map_registry split: option.splits)

lemma used_by_similar: "used_by (map_registry \<sigma> fm) c used names = used_by fm c used names"
  unfolding used_by_def
  by (rule arg_cong [where f = "\<lambda>f. foldl f used names"])
     (auto simp: fun_eq_iff map_of_map_registry split: option.splits)

lemma undefined_by_similar:
  "undefined_by env (map_registry \<sigma> fm) c fp names = undefined_by env fm c fp names"
  unfolding undefined_by_def
  by (rule arg_cong [where f = "\<lambda>f. concat (map f names)"])
     (auto simp: fun_eq_iff map_of_map_registry split: option.splits)

lemma resolve_similar:
  assumes "similar env \<sigma>"
  shows "resolve k env (map_registry \<sigma> fm) c fp (map \<sigma> stack, used, errs) =
         resolve k env fm c fp (stack, used, errs)"
proof (induction k arbitrary: stack used errs)
  case 0
  then show ?case by (cases stack) simp_all
next
  case (Suc k)
  show ?case
  proof (cases "stack = []")
    case True
    then show ?thesis by simp
  next
    case False
    from assms have "visit_spreads (\<sigma> (last stack)) = visit_spreads (last stack)"
      by (simp add: similar_def)
    with False show ?thesis
      using Suc.IH [of "butlast stack @ pushed_by fm c (visit_spreads (last stack))"]
      by (simp add: resolve_Suc last_map map_butlast [symmetric] pushed_by_similar
          used_by_similar undefined_by_similar)
  qed
qed

lemma lookup_all_similar:
  "lookup_all (map_registry \<sigma> fm) used = map_option (map \<sigma>) (lookup_all fm used)"
  by (induction used) (auto simp: map_of_map_registry split: option.splits)

lemma print_document_similar:
  "similar env \<sigma> \<Longrightarrow> print_document env (map \<sigma> ds @ [d]) = print_document env (ds @ [d])"
  by (simp add: print_document_def similar_def comp_def)

lemma process_operation_similar:
  assumes sim: "similar env \<sigma>"
    and fixed: "\<sigma> operation = operation"
    and indexed: "\<And>nd. nameDefMap ms (def_name operation) = Some nd \<Longrightarrow> \<sigma> nd = nd"
    and same: "same_queries st1 st2"
  shows "rel_option (rel_sum (=) same_queries)
           (process_operation k env (map_mstate \<sigma> ms) st1 operation)
           (process_operation k env ms st2 operation)"
proof -
  define fp where "fp = file_of ms (def_name operation)"
  have fp': "file_of (map_mstate \<sigma> ms) (def_name operation) = fp"
    by (simp add: fp_def file_of_def map_mstate_def)
  have fm': "fragmentMap (map_mstate \<sigma> ms) = map_registry \<sigma> (fragmentMap ms)"
    by (simp add: map_mstate_def)
  have nd': "nameDefMap (map_mstate \<sigma> ms) (def_name operation) = nameDefMap ms (def_name operation)"
    using indexed by (cases "nameDefMap ms (def_name operation)") (simp_all add: map_mstate_def)
  from same have cn: "compiledNodes st1 = compiledNodes st2"
    and cache: "usedFragmentsForFragment st1 = usedFragmentsForFragment st2"
    by (simp_all add: same_queries_def)
  have res: "resolve k env (map_registry \<sigma> (fragmentMap ms)) (usedFragmentsForFragment st2) fp
       ([operation], [], []) =
     resolve k env (fragmentMap ms) (usedFragmentsForFragment st2) fp ([operation], [], [])"
    using resolve_similar [OF sim, of k "fragmentMap ms" _ fp "[operation]" "[]" "[]"] fixed
    by simp
  show ?thesis
    unfolding process_operation_def Let_def fp' fm' nd' cn cache res fp_def [symmetric]
      lookup_all_similar
    using cn cache
    by (auto simp: same_queries_def make_query_def print_document_similar [OF sim]
        split: option.splits)
qed


lemma run_operations_similar:
  assumes sim: "similar env \<sigma>"
  shows "\<forall>operation \<in> set ops. \<sigma> operation = operation \<and>
           (\<forall>nd. nameDefMap ms (def_name operation) = Some nd \<longrightarrow> \<sigma> nd = nd) \<Longrightarrow>
         same_queries st1 st2 \<Longrightarrow>
         rel_option (rel_sum (=) same_queries)
           (run_operations k env (map_mstate \<sigma> ms) st1 ops) (run_operations k env ms st2 ops)"
proof (induction ops arbitrary: st1 st2)
  case Nil
  then show ?case by simp
next
  case (Cons operation ops)
  from Cons.prems(1) have fixed: "\<sigma> operation = operation"
    and indexed: "\<And>nd. nameDefMap ms (def_name operation) = Some nd \<Longrightarrow> \<sigma> nd = nd"
    and others: "\<forall>operation \<in> set ops. \<sigma> operation = operation \<and>
           (\<forall>nd. nameDefMap ms (def_name operation) = Some nd \<longrightarrow> \<sigma> nd = nd)"
    by simp_all
  have "rel_option (rel_sum (=) same_queries)
      (process_operation k env (map_mstate \<sigma> ms) st1 operation)
      (process_operation k env ms st2 operation)"
    by (rule process_operation_similar [OF sim fixed indexed Cons.prems(2)])
  then show ?case
  proof (cases rule: option.rel_cases)
    case None
    then show ?thesis by simp
  next
    case (Some r1 r2)
    then show ?thesis using Cons.IH [OF others] by (auto elim!: rel_sum.cases)
  qed
qed

lemma returned_same_queries:
  "rel_option (rel_sum (=) same_queries) r1 r2 \<Longrightarrow> returned r1 = returned r2"
  by (auto simp: returned_def same_queries_def elim!: option.rel_cases rel_sum.cases)

lemma merged_nameDefMap_name:
  assumes "merge_files env init_mstate nodes = Merged ms" and "nameDefMap ms n = Some nd"
  shows "def_name nd = n"
proof -
  from merge_files_indices [OF assms(1), of n] assms(2)
  obtain pd where "last_named n (indexed env [] nodes) = Some pd" "nd = snd pd"
    by (auto simp: init_mstate_def split: option.splits)
  with last_named_SomeD [of n "indexed env [] nodes" pd] show ?thesis by simp
qed

lemma Runner_write_similar:
  assumes sim: "similar env \<sigma>"
    and passes: "\<forall>f \<in> set nodes. validate_pre env (snd f) = [] \<and> validate_pre env (map \<sigma> (snd f)) = []"
    and fixed: "\<And>d. is_operation d \<Longrightarrow> \<sigma> d = d"
    and names: "\<And>f d nd. f \<in> set nodes \<Longrightarrow> d \<in> set (snd f) \<Longrightarrow> is_operation d \<Longrightarrow>
                  def_name nd = def_name d \<Longrightarrow> \<sigma> nd = nd"
  shows "returned (Runner_write fuel env (map_batch \<sigma> nodes)) = returned (Runner_write fuel env nodes)"
proof -
  have init: "map_mstate \<sigma> init_mstate = init_mstate"
    by (simp add: map_mstate_def init_mstate_def map_registry_def fun_eq_iff)
  from merge_files_similar [OF sim passes, of init_mstate]
  obtain ms where merged: "merge_files env init_mstate nodes = Merged ms"
    and merged': "merge_files env init_mstate (map_batch \<sigma> nodes) = Merged (map_mstate \<sigma> ms)"
    by (auto simp: init)
  have ops_kind: "\<forall>d \<in> set (operationDefinitions ms). def_kind d = OPERATION_DEFINITION"
    using merge_files_operations [OF merged] by (simp add: init_mstate_def)
  then have ops_fixed: "map \<sigma> (operationDefinitions ms) = operationDefinitions ms"
    using fixed by (simp add: map_idI is_operation_def)
  have "\<sigma> operation = operation \<and>
        (\<forall>nd. nameDefMap ms (def_name operation) = Some nd \<longrightarrow> \<sigma> nd = nd)"
    if "operation \<in> set (operationDefinitions ms)" for operation
  proof (intro conjI allI impI)
    from that ops_kind fixed show "\<sigma> operation = operation" by (simp add: is_operation_def)
    fix nd assume "nameDefMap ms (def_name operation) = Some nd"
    from merged_nameDefMap_name [OF merged this] have name: "def_name nd = def_name operation" .
    from that merge_files_operation_list [OF merged]
    obtain f where "f \<in> set nodes" "operation \<in> set (snd f)" "is_operation operation"
      by (auto simp: init_mstate_def)
    from names [OF this name] show "\<sigma> nd = nd" .
  qed
  then have "rel_option (rel_sum (=) same_queries)
      (run_operations fuel env (map_mstate \<sigma> ms)
         \<lparr> compiledNodes = [], errors = global_errors env (map_mstate \<sigma> ms),
           usedFragmentsForFragment = Map.empty \<rparr> (operationDefinitions ms))
      (run_operations fuel env ms
         \<lparr> compiledNodes = [], errors = global_errors env ms,
           usedFragmentsForFragment = Map.empty \<rparr> (operationDefinitions ms))"
    by (intro run_operations_similar [OF sim]) (simp_all add: same_queries_def)
  then have "rel_option (rel_sum (=) same_queries)
      (Runner_write fuel env (map_batch \<sigma> nodes)) (Runner_write fuel env nodes)"
    using merged merged' ops_fixed by (simp add: Runner_write_def map_mstate_def)
  then show ?thesis by (rule returned_same_queries)
qed

lemma filter_definitions_append:
  "filter_definitions env fm (xs @ ys) =
     (fst (filter_definitions env fm xs) @
        fst (filter_definitions env (snd (filter_definitions env fm xs)) ys),
      snd (filter_definitions env (snd (filter_definitions env fm xs)) ys))"
proof (induction xs arbitrary: fm)
  case Nil
  then show ?case by simp
next
  case (Cons d xs)
  show ?case
    unfolding append_Cons prod_eq_iff fst_conv snd_conv
      filter_definitions_fst_Cons filter_definitions_snd_Cons
    by (simp add: Cons.IH del: filter_definitions.simps)
qed

lemma exact_duplicate_dropped:
  assumes "def_kind d = FRAGMENT_DEFINITION"
    and "registry_after env (map_of fm) xs (def_name d) = Some e"
    and "frag_text e = print env d"
  shows "filter_definitions env fm (xs @ d # ys) = filter_definitions env fm (xs @ ys)"
proof -
  from assms(2) have "map_of (snd (filter_definitions env fm xs)) (def_name d) = Some e"
    by (simp add: filter_definitions_registry)
  with assms(1,3) have "filter_definitions env (snd (filter_definitions env fm xs)) (d # ys) =
      filter_definitions env (snd (filter_definitions env fm xs)) ys"
    by simp
  then show ?thesis by (simp only: filter_definitions_append [of env fm xs])
qed

lemma similar_swap:
  assumes "def_kind d1 = def_kind d2" "def_name d1 = def_name d2" "print env d1 = print env d2"
    "visit_spreads d1 = visit_spreads d2"
  shows "similar env (swap_definitions d1 d2)"
  using assms by (simp add: similar_def swap_definitions_def)

text \<open>
  C5, as the code has it. A fragment definition \<open>d\<close> that the filter meets when the
  registry holds its name with its printed text is dropped: the file's list and the
  registry come out as if \<open>d\<close> were not there. And for two fragment definitions \<open>d1\<close> and
  \<open>d2\<close> with one name, one printed text and the same spreads: the batch in which the two
  are exchanged returns the same map of compiled queries (or fails, or does not end,
  in the same way), when both batches pass the structural rules and no operation has
  the name of the two fragments.
\<close>

theorem exact_duplicates:
  "(def_kind d = FRAGMENT_DEFINITION \<and> registry_after env (map_of fm) xs (def_name d) = Some e \<and>
    frag_text e = print env d \<longrightarrow>
      filter_definitions env fm (xs @ d # ys) = filter_definitions env fm (xs @ ys)) \<and>
   (def_kind d1 = FRAGMENT_DEFINITION \<and> def_kind d2 = FRAGMENT_DEFINITION \<and>
    def_name d1 = def_name d2 \<and> print env d1 = print env d2 \<and>
    visit_spreads d1 = visit_spreads d2 \<and>
    (\<forall>f \<in> set nodes. validate_pre env (snd f) = [] \<and>
        validate_pre env (map (swap_definitions d1 d2) (snd f)) = []) \<and>
    (\<forall>f \<in> set nodes. \<forall>operation \<in> set (snd f).
        is_operation operation \<longrightarrow> def_name operation \<noteq> def_name d1) \<longrightarrow>
      returned (Runner_write fuel env (map_batch (swap_definitions d1 d2) nodes)) =
      returned (Runner_write fuel env nodes))"
proof (intro conjI impI)
  assume "def_kind d = FRAGMENT_DEFINITION \<and> registry_after env (map_of fm) xs (def_name d) = Some e \<and>
    frag_text e = print env d"
  then show "filter_definitions env fm (xs @ d # ys) = filter_definitions env fm (xs @ ys)"
    by (blast intro: exact_duplicate_dropped)
next
  assume a: "def_kind d1 = FRAGMENT_DEFINITION \<and> def_kind d2 = FRAGMENT_DEFINITION \<and>
    def_name d1 = def_name d2 \<and> print env d1 = print env d2 \<and>
    visit_spreads d1 = visit_spreads d2 \<and>
    (\<forall>f \<in> set nodes. validate_pre env (snd f) = [] \<and>
        validate_pre env (map (swap_definitions d1 d2) (snd f)) = []) \<and>
    (\<forall>f \<in> set nodes. \<forall>operation \<in> set (snd f).
        is_operation operation \<longrightarrow> def_name operation \<noteq> def_name d1)"
  show "returned (Runner_write fuel env (map_batch (swap_definitions d1 d2) nodes)) =
      returned (Runner_write fuel env nodes)"
  proof (rule Runner_write_similar)
    from a show "similar env (swap_definitions d1 d2)" by (intro similar_swap) simp_all
    from a show "\<forall>f \<in> set nodes. validate_pre env (snd f) = [] \<and>
        validate_pre env (map (swap_definitions d1 d2) (snd f)) = []" by blast
  next
    fix d assume "is_operation d"
    with a show "swap_definitions d1 d2 d = d"
      by (auto simp: swap_definitions_def is_operation_def)
  next
    fix f and d nd :: definition_node
    assume "f \<in> set nodes" "d \<in> set (snd f)" "is_operation d" "def_name nd = def_name d"
    with a have "def_name nd \<noteq> def_name d1" by auto
    with a show "swap_definitions d1 d2 nd = nd"
      by (auto simp: swap_definitions_def)
  qed
qed

lemmas duplicates_simps = duplicates_batch_def three_definitions_batch_def fragment_Fx_def
  fragment_Fx_copy_def fragment_Fy_def fragment_Fy_copy_def query_P_def query_Q_def

theorem exact_duplicates_witness:
  "filter_definitions example_env [] ([fragment_Fx] @ fragment_Fx_copy # [query_P]) =
     filter_definitions example_env [] ([fragment_Fx] @ [query_P]) \<and>
   fragment_Fx_copy \<noteq> fragment_Fx \<and>
   map_batch (swap_definitions fragment_Fx fragment_Fx_copy) duplicates_batch =
     [(''p.js'', [fragment_Fx_copy, query_P]), (''q.js'', [fragment_Fx, query_Q])] \<and>
   returned (Runner_write 2 example_env
       (map_batch (swap_definitions fragment_Fx fragment_Fx_copy) duplicates_batch)) =
     returned (Runner_write 2 example_env duplicates_batch) \<and>
   map_option (map_sum id (map (\<lambda>pq. (fst pq, q_text (snd pq)))))
       (returned (Runner_write 2 example_env duplicates_batch)) =
     Some (Inr [(''p.js'', ''fragment F { x }'' @ [CHR 0x0A, CHR 0x0A] @ ''query P { ...F }'' @ [CHR 0x0A]),
                (''q.js'', ''fragment F { x }'' @ [CHR 0x0A, CHR 0x0A] @ ''query Q { ...F }'' @ [CHR 0x0A])])"
proof -
  have hyps: "def_kind fragment_Fx_copy = FRAGMENT_DEFINITION \<and>
      registry_after example_env (map_of []) [fragment_Fx] (def_name fragment_Fx_copy) =
        Some \<lparr> frag_def = fragment_Fx, frag_text = ''fragment F { x }'' \<rparr> \<and>
      frag_text \<lparr> frag_def = fragment_Fx, frag_text = ''fragment F { x }'' \<rparr> =
        print example_env fragment_Fx_copy"
    "def_kind fragment_Fx = FRAGMENT_DEFINITION \<and> def_kind fragment_Fx_copy = FRAGMENT_DEFINITION \<and>
      def_name fragment_Fx = def_name fragment_Fx_copy \<and>
      print example_env fragment_Fx = print example_env fragment_Fx_copy \<and>
      visit_spreads fragment_Fx = visit_spreads fragment_Fx_copy \<and>
      (\<forall>f \<in> set duplicates_batch. validate_pre example_env (snd f) = [] \<and>
          validate_pre example_env (map (swap_definitions fragment_Fx fragment_Fx_copy) (snd f)) = []) \<and>
      (\<forall>f \<in> set duplicates_batch. \<forall>operation \<in> set (snd f).
          is_operation operation \<longrightarrow> def_name operation \<noteq> def_name fragment_Fx)"
    by (simp_all add: duplicates_simps registry_after_def first_fragment_def example_env_def
        example_print_def node_def visit_spreads_def is_operation_def)
  note result = exact_duplicates [of fragment_Fx_copy example_env "[]" "[fragment_Fx]"
      "\<lparr> frag_def = fragment_Fx, frag_text = ''fragment F { x }'' \<rparr>" "[query_P]"
      fragment_Fx fragment_Fx_copy duplicates_batch 2]
  from result [THEN conjunct1, rule_format, OF hyps(1)]
    result [THEN conjunct2, rule_format, OF hyps(2)]
  show ?thesis
    by (simp add: run_simps duplicates_simps map_batch_def swap_definitions_def returned_def
        numeral_2_eq_2)
qed

text \<open>
  C5 as stated fails when the registry holds another text for the name: of three
  definitions of the fragment F, the second and the third have the same printed text,
  which is not the text of the first. The registry keeps the first, and the third is
  not dropped from its file's list: all three are indexed.
\<close>

theorem third_definition_not_dropped_counterexample:
  "def_name fragment_Fy_copy = def_name fragment_Fy \<and>
   print example_env fragment_Fy_copy = print example_env fragment_Fy \<and>
   indexed example_env [] three_definitions_batch =
     [(''x.js'', fragment_Fx), (''y.js'', fragment_Fy), (''z.js'', fragment_Fy_copy)]"
  by (simp add: run_simps duplicates_simps)

section \<open>The id of a static query\<close>

lemma process_operation_keeps:
  assumes "process_operation fuel env ms st operation = Some (Inr st')"
    and "map_of (compiledNodes st) p = Some q"
  shows "map_of (compiledNodes st') p = Some q"
  using assms(1)
proof (cases rule: process_operation_cases)
  case (duplicate otherNode)
  with assms(2) show ?thesis by simp
next
  case (compiled used errs fragments nd)
  with assms(2) show ?thesis by (simp add: map_add_def)
qed

lemma run_operations_keeps:
  "run_operations fuel env ms st ops = Some (Inr st') \<Longrightarrow>
   map_of (compiledNodes st) p = Some q \<Longrightarrow> map_of (compiledNodes st') p = Some q"
proof (induction ops arbitrary: st)
  case Nil
  then show ?case by simp
next
  case (Cons operation ops)
  then obtain st1 where step: "process_operation fuel env ms st operation = Some (Inr st1)"
    and run: "run_operations fuel env ms st1 ops = Some (Inr st')"
    by (auto split: option.splits sum.splits)
  from Cons.IH [OF run process_operation_keeps [OF step Cons.prems(2)]] show ?case .
qed

lemma run_operations_first:
  assumes run: "run_operations fuel env ms st (before @ operation # after) = Some (Inr st')"
    and empty: "map_of (compiledNodes st) (file_of ms (def_name operation)) = None"
    and others: "\<forall>other \<in> set before.
        file_of ms (def_name other) \<noteq> file_of ms (def_name operation)"
  shows "\<exists>nd fragments. nameDefMap ms (def_name operation) = Some nd \<and>
           map_of (compiledNodes st') (file_of ms (def_name operation)) =
             Some (make_query env (def_name operation) (file_of ms (def_name operation))
                     nd fragments operation)"
proof -
  from run_operations_append [OF run]
  obtain st1 where run1: "run_operations fuel env ms st before = Some (Inr st1)"
    and run2: "run_operations fuel env ms st1 (operation # after) = Some (Inr st')"
    by blast
  from run2 obtain st2 where step: "process_operation fuel env ms st1 operation = Some (Inr st2)"
    and run3: "run_operations fuel env ms st2 after = Some (Inr st')"
    by (auto split: option.splits sum.splits)
  from run_operations_other_files [OF run1 others] empty
  have none: "map_of (compiledNodes st1) (file_of ms (def_name operation)) = None" by simp
  from step show ?thesis
  proof (cases rule: process_operation_cases)
    case (duplicate otherNode)
    with none show ?thesis by simp
  next
    case (compiled used errs fragments nd)
    then have "map_of (compiledNodes st2) (file_of ms (def_name operation)) =
        Some (make_query env (def_name operation) (file_of ms (def_name operation))
                nd fragments operation)"
      by (simp add: map_add_def)
    from run_operations_keeps [OF run3 this] compiled(4) show ?thesis by blast
  qed
qed


lemma first_operation_compiled:
  assumes returns: "Runner_write fuel env nodes = Some (Inr st)"
    and merged: "merge_files env init_mstate nodes = Merged ms"
    and paths: "distinct (map fst nodes)"
    and in_batch: "(F, doc) \<in> set nodes"
    and first: "filter is_operation doc = a # rest"
    and own_name: "\<forall>f \<in> set nodes. \<forall>d \<in> set (snd f).
          def_name d = def_name a \<longrightarrow> fst f = F \<and> d = a"
    and other_files: "\<forall>f \<in> set nodes. \<forall>d \<in> set (snd f).
          is_operation d \<and> fst f \<noteq> F \<longrightarrow> def_name d \<notin> def_name ` set doc"
  shows "\<exists>fragments. map_of (compiledNodes st) F =
           Some (make_query env (def_name a) F a fragments a)"
proof -
  from in_batch obtain pre post where nodes: "nodes = pre @ (F, doc) # post"
    by (meson split_list)
  define ops where "ops = (\<lambda>fs :: (string \<times> definition_node list) list.
    concat (map (\<lambda>f. filter is_operation (snd f)) fs))"
  have op_list: "operationDefinitions ms = ops pre @ a # (rest @ ops post)"
    using merge_files_operation_list [OF merged] first
    by (simp add: nodes ops_def init_mstate_def)
  from first have "a \<in> set (filter is_operation doc)" by simp
  then have a_doc: "a \<in> set doc" "is_operation a" by auto
  have unique_doc: "doc' = doc" if "(F, doc') \<in> set nodes" for doc'
    using map_of_is_SomeI [OF paths that] map_of_is_SomeI [OF paths in_batch] by simp
  have lookup_a: "namePathMap ms (def_name a) = Some F \<and> nameDefMap ms (def_name a) = Some a"
  proof -
    from merged_lookup [OF merged in_batch a_doc]
    obtain q d' doc' where l: "namePathMap ms (def_name a) = Some q" "nameDefMap ms (def_name a) = Some d'"
      "(q, doc') \<in> set nodes" "d' \<in> set doc'" "def_name d' = def_name a" by blast
    with own_name [rule_format, of "(q, doc')" d'] have "q = F \<and> d' = a" by auto
    with l show ?thesis by simp
  qed
  then have file_a: "file_of ms (def_name a) = F" by (simp add: file_of_def)
  have elsewhere: "file_of ms (def_name operation) \<noteq> F"
    if "operation \<in> set (ops pre)" for operation
  proof -
    from that obtain G dG where G: "(G, dG) \<in> set pre" "operation \<in> set dG"
      "is_operation operation"
      by (auto simp: ops_def)
    from G(1) paths have "G \<noteq> F" by (auto simp: nodes intro: rev_image_eqI)
    from G(1) have in_nodes: "(G, dG) \<in> set nodes" by (auto simp: nodes)
    from merged_lookup [OF merged in_nodes G(2,3)]
    obtain q d' doc' where l: "namePathMap ms (def_name operation) = Some q"
      "(q, doc') \<in> set nodes" "d' \<in> set doc'" "def_name d' = def_name operation" by blast
    have "q \<noteq> F"
    proof
      assume "q = F"
      with l unique_doc have "d' \<in> set doc" by blast
      with l(4) have "def_name operation \<in> def_name ` set doc" by (metis imageI)
      with other_files [rule_format, of "(G, dG)" operation] in_nodes G(2,3) \<open>G \<noteq> F\<close>
      show False by simp
    qed
    with l(1) show ?thesis by (simp add: file_of_def)
  qed
  from returns merged have "run_operations fuel env ms
      \<lparr> compiledNodes = [], errors = global_errors env ms, usedFragmentsForFragment = Map.empty \<rparr>
      (ops pre @ a # (rest @ ops post)) = Some (Inr st)"
    by (simp add: Runner_write_def op_list)
  from run_operations_first [OF this] elsewhere lookup_a file_a
  show ?thesis by auto
qed

text \<open>
  C8. Every entry of the map a run returns is filed under the path its query records,
  and the id of the query is a function of that path alone: for a static query the
  marker \<^verbatim>\<open>sq--\<close> followed by the kebab case of the path relative to the program
  directory, and no id for any other query. Nothing else of the batch enters the id.
  And a static query does get such an entry: when the batch passes the structural
  rules and the first operation of the file \<open>F\<close> is flagged as a static query, its name
  being the name of no other definition of the batch and no operation of another file
  having the name of a definition of \<open>F\<close>, every run that returns has under \<open>F\<close> a query of
  that name, static, whose id is \<^verbatim>\<open>sq--\<close> followed by the kebab case of the relative path
  of \<open>F\<close>; and the run does return, for some number of iterations, when the registry has
  no cycle of spreads and the runtime supports hooks.
\<close>

theorem static_query_id:
  "(\<forall>fuel st p q. Runner_write fuel env nodes = Some (Inr st) \<and> (p, q) \<in> set (compiledNodes st) \<longrightarrow>
      q_path q = p \<and>
      q_id q = (if q_isStaticQuery q
                then Some (''sq--'' @ kebabCase env (path_relative env (program_directory env) p))
                else None)) \<and>
   (merge_files env init_mstate nodes = Merged ms \<and> distinct (map fst nodes) \<and>
    (F, doc) \<in> set nodes \<and> filter is_operation doc = a # rest \<and> def_isStaticQuery a \<and>
    (\<forall>f \<in> set nodes. \<forall>d \<in> set (snd f). def_name d = def_name a \<longrightarrow> fst f = F \<and> d = a) \<and>
    (\<forall>f \<in> set nodes. \<forall>d \<in> set (snd f).
       is_operation d \<and> fst f \<noteq> F \<longrightarrow> def_name d \<notin> def_name ` set doc) \<longrightarrow>
      (\<forall>fuel st. Runner_write fuel env nodes = Some (Inr st) \<longrightarrow>
         (\<exists>q. map_of (compiledNodes st) F = Some q \<and> q_name q = def_name a \<and>
              q_isStaticQuery q \<and>
              q_id q = Some (''sq--'' @
                kebabCase env (path_relative env (program_directory env) F)))) \<and>
      (acyclic_registry rank (fragmentMap ms) \<and> \<not> hooks_unsupported env \<longrightarrow>
         (\<exists>fuel st. Runner_write fuel env nodes = Some (Inr st))))"
proof (intro conjI allI impI)
  fix fuel st p q
  assume "Runner_write fuel env nodes = Some (Inr st) \<and> (p, q) \<in> set (compiledNodes st)"
  then have "Runner_write fuel env nodes = Some (Inr st)" "(p, q) \<in> set (compiledNodes st)"
    by simp_all
  from Runner_write_entries [OF this]
  show "q_path q = p"
    and "q_id q = (if q_isStaticQuery q
                   then Some (''sq--'' @ kebabCase env (path_relative env (program_directory env) p))
                   else None)"
    by (auto simp: make_query_def)
next
  fix fuel st
  assume batch: "merge_files env init_mstate nodes = Merged ms \<and> distinct (map fst nodes) \<and>
    (F, doc) \<in> set nodes \<and> filter is_operation doc = a # rest \<and> def_isStaticQuery a \<and>
    (\<forall>f \<in> set nodes. \<forall>d \<in> set (snd f). def_name d = def_name a \<longrightarrow> fst f = F \<and> d = a) \<and>
    (\<forall>f \<in> set nodes. \<forall>d \<in> set (snd f).
       is_operation d \<and> fst f \<noteq> F \<longrightarrow> def_name d \<notin> def_name ` set doc)"
    and returns: "Runner_write fuel env nodes = Some (Inr st)"
  from batch have "merge_files env init_mstate nodes = Merged ms" "distinct (map fst nodes)"
    "(F, doc) \<in> set nodes" "filter is_operation doc = a # rest"
    "\<forall>f \<in> set nodes. \<forall>d \<in> set (snd f). def_name d = def_name a \<longrightarrow> fst f = F \<and> d = a"
    "\<forall>f \<in> set nodes. \<forall>d \<in> set (snd f).
       is_operation d \<and> fst f \<noteq> F \<longrightarrow> def_name d \<notin> def_name ` set doc"
    by simp_all
  from first_operation_compiled [OF returns this]
  obtain fragments where
    "map_of (compiledNodes st) F = Some (make_query env (def_name a) F a fragments a)" ..
  moreover from batch have "def_isStaticQuery a" by simp
  ultimately show "\<exists>q. map_of (compiledNodes st) F = Some q \<and> q_name q = def_name a \<and>
            q_isStaticQuery q \<and>
            q_id q = Some (''sq--'' @
              kebabCase env (path_relative env (program_directory env) F))"
    by (simp add: make_query_def)
next
  assume batch: "merge_files env init_mstate nodes = Merged ms \<and> distinct (map fst nodes) \<and>
    (F, doc) \<in> set nodes \<and> filter is_operation doc = a # rest \<and> def_isStaticQuery a \<and>
    (\<forall>f \<in> set nodes. \<forall>d \<in> set (snd f). def_name d = def_name a \<longrightarrow> fst f = F \<and> d = a) \<and>
    (\<forall>f \<in> set nodes. \<forall>d \<in> set (snd f).
       is_operation d \<and> fst f \<noteq> F \<longrightarrow> def_name d \<notin> def_name ` set doc)"
    and a: "acyclic_registry rank (fragmentMap ms) \<and> \<not> hooks_unsupported env"
  from batch have merged: "merge_files env init_mstate nodes = Merged ms" by simp
  from run_operations_returns [OF merged _ _ subset_refl, of rank
      "\<lparr> compiledNodes = [], errors = global_errors env ms, usedFragmentsForFragment = Map.empty \<rparr>"] a
  show "\<exists>fuel st. Runner_write fuel env nodes = Some (Inr st)"
    using merged by (simp add: Runner_write_def)
qed

lemma kebab_example:
  "example_kebabCase (example_relative ''/site'' ''/site/src/components/Header.js'') =
     ''src-components-header-js''"
  by code_simp

lemma header_run:
  "\<exists>st. Runner_write 1 site_env header_batch = Some (Inr st) \<and>
     map (\<lambda>pq. (fst pq, q_name (snd pq), q_id (snd pq))) (compiledNodes st) =
       [(''/site/src/components/Header.js'', ''HeaderQuery'', Some ''sq--src-components-header-js''),
        (''/site/src/pages/index.js'', ''A'', None)]"
  using kebab_example
  by (simp add: run_simps site_env_def header_batch_def static_query_def query_A_def)

text \<open>
  The static query of the component \<^verbatim>\<open>/site/src/components/Header.js\<close> of the site
  \<^verbatim>\<open>/site\<close> gets the id \<^verbatim>\<open>sq--src-components-header-js\<close>; the page query gets none.
\<close>

theorem static_query_id_witness:
  "\<exists>st. Runner_write 1 site_env header_batch = Some (Inr st) \<and>
     (\<exists>q. map_of (compiledNodes st) ''/site/src/components/Header.js'' = Some q \<and>
          q_name q = ''HeaderQuery'' \<and> q_isStaticQuery q \<and>
          q_id q = Some ''sq--src-components-header-js'') \<and>
     map (\<lambda>pq. (fst pq, q_name (snd pq), q_id (snd pq))) (compiledNodes st) =
       [(''/site/src/components/Header.js'', ''HeaderQuery'', Some ''sq--src-components-header-js''),
        (''/site/src/pages/index.js'', ''A'', None)]"
proof -
  from header_run obtain st where both:
    "Runner_write 1 site_env header_batch = Some (Inr st) \<and>
     map (\<lambda>pq. (fst pq, q_name (snd pq), q_id (snd pq))) (compiledNodes st) =
       [(''/site/src/components/Header.js'', ''HeaderQuery'', Some ''sq--src-components-header-js''),
        (''/site/src/pages/index.js'', ''A'', None)]" ..
  note run = both [THEN conjunct1] and entries = both [THEN conjunct2]
  have batch: "merge_files site_env init_mstate header_batch =
      Merged (state_of (merge_files site_env init_mstate header_batch)) \<and>
    distinct (map fst header_batch) \<and>
    (''/site/src/components/Header.js'', [static_query]) \<in> set header_batch \<and>
    filter is_operation [static_query] = static_query # [] \<and> def_isStaticQuery static_query \<and>
    (\<forall>f \<in> set header_batch. \<forall>d \<in> set (snd f).
       def_name d = def_name static_query \<longrightarrow>
       fst f = ''/site/src/components/Header.js'' \<and> d = static_query) \<and>
    (\<forall>f \<in> set header_batch. \<forall>d \<in> set (snd f).
       is_operation d \<and> fst f \<noteq> ''/site/src/components/Header.js'' \<longrightarrow>
       def_name d \<notin> def_name ` set [static_query])"
    by (simp add: header_batch_def site_env_def example_env_def is_operation_def state_of_def
        init_mstate_def static_query_def query_A_def node_def)
  note result = static_query_id [of site_env header_batch
      "state_of (merge_files site_env init_mstate header_batch)"
      "''/site/src/components/Header.js''" "[static_query]" static_query "[]" "\<lambda>d. 0",
      THEN conjunct2, rule_format, OF batch, THEN conjunct1, rule_format, OF run]
  have name: "def_name static_query = ''HeaderQuery''"
    by (simp add: static_query_def node_def)
  have id: "kebabCase site_env (path_relative site_env (program_directory site_env)
      ''/site/src/components/Header.js'') = ''src-components-header-js''"
    using kebab_example by (simp add: site_env_def example_env_def)
  show ?thesis
    by (rule exI [of _ st])
       (intro conjI run result [unfolded name id append.simps] entries)
qed

end
